theory Spec2Isabelle
  imports Complex_Main "HOL-Library.Signed_Division" "HOL-Library.Multiset" "HOL-Library.Log_Nat"
begin

section \<open>Data model\<close>

text \<open>
  The operators of \<^verbatim>\<open>EmbeddingBag.cpp\<close>, \<^verbatim>\<open>ReduceOpAminmax.cpp\<close> and
  \<^verbatim>\<open>ReduceOpLogical.cpp\<close> as HOL functions.

  \<^item> An \<^verbatim>\<open>int64_t\<close> tensor (indices, offsets, segment offsets, counts) is an \<open>int list\<close>;
    an optional tensor (\<^verbatim>\<open>t.defined()\<close>) is an \<open>option\<close>.
  \<^item> A floating tensor is a record with its element type, its two sizes and its contiguous
    row-major data; a tensor that may be non-contiguous has its two strides as well. The
    element values are the (finite) values of the floating type, as reals. The operations
    of the floating types round: they are a parameter of the model, see \<open>arith\<close> below.
  \<^item> Every failure of the source (\<^verbatim>\<open>TORCH_CHECK\<close>, \<^verbatim>\<open>TORCH_INTERNAL_ASSERT\<close>, an index
    out of range on a tensor, a \<^verbatim>\<open>data_ptr<T>()\<close> of the wrong element type, a dispatch
    macro without a case) is a value \<open>Inl e\<close>.
  \<^item> A device kernel is the list of stores its work-items issue, taken in the order of the
    global linear id, applied to the output buffer. Raw pointer accesses out of range
    are undefined in the source; the theorems carry the bounds under which none occurs.
  \<^item> Integer widths: all sizes here stay far below \<open>2^31\<close>, the source's \<^verbatim>\<open>int\<close>
    and \<^verbatim>\<open>int64_t\<close> are both \<open>int\<close>.
  \<^item> The build has \<^verbatim>\<open>USE_ONEDPL\<close> defined.
\<close>

datatype error =
    IndexError
  | InternalAssert
  | UnknownMode int
  | DTypeMismatch
  | NotImplemented

datatype ScalarType = Float | Double | Half | BFloat16 | Long | Bool

record tensor =
  scalar_type :: ScalarType
  size0 :: nat
  size1 :: nat
  data :: "real list"

definition MODE_SUM :: int where "MODE_SUM = 0"
definition MODE_MEAN :: int where "MODE_MEAN = 1"
definition MODE_MAX :: int where "MODE_MAX = 2"

definition NROWS_PER_THREAD :: int where "NROWS_PER_THREAD = 10"

text \<open>Modelled from the spec: \<^verbatim>\<open>CeilDiv\<close> is declared in a header that is not under src/;
  the spec gives \<open>ceil(segment_length / CHUNK_SIZE)\<close>. It is written with the truncating
  division of C++.\<close>

definition CeilDiv :: "int \<Rightarrow> int \<Rightarrow> int" where
  "CeilDiv a b = (a + b - 1) sdiv b"

text \<open>\<^verbatim>\<open>at::zeros\<close> and \<^verbatim>\<open>at::empty\<close>. The content of an \<^verbatim>\<open>at::empty\<close> buffer is unspecified;
  zero stands for it, and every cell that is read later is first written by a kernel.\<close>

definition at_zeros :: "nat \<Rightarrow> nat \<Rightarrow> ScalarType \<Rightarrow> tensor" where
  "at_zeros n m ty = \<lparr>scalar_type = ty, size0 = n, size1 = m, data = replicate (n * m) 0\<rparr>"

text \<open>A tensor as a caller hands it over: \<open>data\<close> is its storage and element \<open>(i, j)\<close> is at
  \<open>i * stride0 + j * stride1\<close>. It is contiguous (ATen's \<^verbatim>\<open>is_contiguous()\<close>) when it has no
  element or when, from the last dimension on, every dimension of size other than 1 has the
  stride of the row-major layout.\<close>

record strided_tensor = tensor +
  stride0 :: nat
  stride1 :: nat

definition is_contiguous :: "strided_tensor \<Rightarrow> bool" where
  "is_contiguous t =
     (size0 t * size1 t = 0 \<or>
      ((size1 t = 1 \<or> stride1 t = 1) \<and> (size0 t = 1 \<or> stride0 t = size1 t)))"

text \<open>What a public entry point has started on the device before it returns: the copy kernel
  of \<^verbatim>\<open>contiguous()\<close>, and the backward path it has called (which launches the kernels of
  that path).\<close>

datatype step = Copy_kernel | Call_sum_avg | Call_max

text \<open>\<^verbatim>\<open>contiguous()\<close> returns a contiguous tensor as it is. For any other tensor it allocates
  a row-major one and launches the kernel that copies the elements over.\<close>

definition contiguous :: "strided_tensor \<Rightarrow> step list \<times> tensor" where
  "contiguous t =
     (if is_contiguous t then ([], tensor.truncate t)
      else ([Copy_kernel],
            \<lparr>scalar_type = scalar_type t, size0 = size0 t, size1 = size1 t,
             data = map (\<lambda>i. data t ! ((i div size1 t) * stride0 t + (i mod size1 t) * stride1 t))
                      [0..<size0 t * size1 t]\<rparr>))"

subsection \<open>Floating-point arithmetic\<close>

text \<open>The kernels compute in \<^verbatim>\<open>acc_type<scalar_t>\<close> and store \<^verbatim>\<open>scalar_t\<close>. What these
  operations return is fixed by the floating types, the compiler and the device, not by the
  source; the model takes them as a parameter, one \<open>arith\<close> for each element type:

  \<^item> \<open>acc_add a b\<close> is \<^verbatim>\<open>a + b\<close> and \<open>acc_mul a b\<close> is \<^verbatim>\<open>a * b\<close> in the accumulation type;
  \<^item> \<open>acc_muladd w a b\<close> is the value of \<^verbatim>\<open>w\<close> after \<^verbatim>\<open>w += a * b\<close> (the compiler may or may
    not contract it into one fused operation);
  \<^item> \<open>acc_div a n\<close> is \<^verbatim>\<open>a / n\<close> for an \<^verbatim>\<open>int64_t n\<close>, and \<open>acc_recip n\<close> is \<^verbatim>\<open>1.0 / n\<close>
    converted to the accumulation type;
  \<^item> \<open>to_scalar a\<close> is the conversion of an accumulated value to \<^verbatim>\<open>scalar_t\<close> (the
    conversion of a \<^verbatim>\<open>scalar_t\<close> to the accumulation type is exact);
  \<^item> \<open>scalar_add a b\<close> is \<^verbatim>\<open>a + b\<close> in \<^verbatim>\<open>scalar_t\<close>, the addition of \<^verbatim>\<open>atomicAdd\<close>.\<close>

record arith =
  acc_add :: "real \<Rightarrow> real \<Rightarrow> real"
  acc_mul :: "real \<Rightarrow> real \<Rightarrow> real"
  acc_muladd :: "real \<Rightarrow> real \<Rightarrow> real \<Rightarrow> real"
  acc_div :: "real \<Rightarrow> int \<Rightarrow> real"
  acc_recip :: "int \<Rightarrow> real"
  to_scalar :: "real \<Rightarrow> real"
  scalar_add :: "real \<Rightarrow> real \<Rightarrow> real"

text \<open>One arithmetic to run the model with: the IEEE 754 binary formats, every operation
  rounded to the nearest value of the format, ties to even, \<^verbatim>\<open>w += a * b\<close> not fused, and
  \<^verbatim>\<open>float\<close> accumulation for the element types of at most 32 bits. \<open>fp_round p\<close> rounds to \<open>p\<close>
  significant bits (24 for \<^verbatim>\<open>float\<close>, 53 for \<^verbatim>\<open>double\<close>, 11 for \<^verbatim>\<open>half\<close>, 8 for
  \<^verbatim>\<open>bfloat16\<close>); overflow and subnormal numbers are left out.\<close>

definition round_half_even :: "real \<Rightarrow> int" where
  "round_half_even q =
     (let f = \<lfloor>q\<rfloor>; d = q - of_int f
      in if d < 1 / 2 then f else if 1 / 2 < d then f + 1 else if even f then f else f + 1)"

definition binary_exponent :: "real \<Rightarrow> int" where
  "binary_exponent x =
     (if 1 \<le> \<bar>x\<bar> then bitlen \<lfloor>\<bar>x\<bar>\<rfloor> - 1 else - bitlen (\<lceil>1 / \<bar>x\<bar>\<rceil> - 1))"

definition pow2 :: "int \<Rightarrow> real" where
  "pow2 e = (if 0 \<le> e then 2 ^ nat e else 1 / 2 ^ nat (- e))"

definition fp_round :: "nat \<Rightarrow> real \<Rightarrow> real" where
  "fp_round p x =
     (if x = 0 then 0
      else (let u = pow2 (binary_exponent x - int p + 1) in of_int (round_half_even (x / u)) * u))"

definition ieee :: "nat \<Rightarrow> nat \<Rightarrow> arith" where
  "ieee pa ps =
     \<lparr>acc_add = (\<lambda>a b. fp_round pa (a + b)),
      acc_mul = (\<lambda>a b. fp_round pa (a * b)),
      acc_muladd = (\<lambda>w a b. fp_round pa (w + fp_round pa (a * b))),
      acc_div = (\<lambda>a n. fp_round pa (a / fp_round pa (of_int n))),
      acc_recip = (\<lambda>n. fp_round pa (fp_round 53 (1 / fp_round 53 (of_int n)))),
      to_scalar = fp_round ps,
      scalar_add = (\<lambda>a b. fp_round ps (a + b))\<rparr>"

definition ieee_arith :: "ScalarType \<Rightarrow> arith" where
  "ieee_arith ty =
     (case ty of Float \<Rightarrow> ieee 24 24 | Half \<Rightarrow> ieee 24 11 | BFloat16 \<Rightarrow> ieee 24 8
      | _ \<Rightarrow> ieee 53 53)"

definition at_empty :: "nat \<Rightarrow> 'a::zero list" where
  "at_empty n = replicate n 0"

subsection \<open>Kernel launches\<close>

text \<open>\<^verbatim>\<open>parallel_for\<close> over a one-dimensional range: every work-item \<open>gid\<close> of
  \<open>[0, total_items)\<close> runs \<open>kfn\<close>, which returns the stores it issues.\<close>

definition parallel_for :: "int \<Rightarrow> (int \<Rightarrow> 's list) \<Rightarrow> 's list" where
  "parallel_for total_items kfn = concat (map kfn (map int [0..<nat total_items]))"

definition store :: "'a list \<Rightarrow> int \<times> 'a \<Rightarrow> 'a list" where
  "store buf s = (if 0 \<le> fst s \<and> fst s < int (length buf) then buf[nat (fst s) := snd s] else buf)"

definition scatter :: "'a list \<Rightarrow> (int \<times> 'a) list \<Rightarrow> 'a list" where
  "scatter buf stores = foldl store buf stores"

text \<open>\<^verbatim>\<open>atomicAdd\<close> on a cell.\<close>

definition atomicAdd :: "arith \<Rightarrow> real list \<Rightarrow> int \<times> real \<Rightarrow> real list" where
  "atomicAdd ar buf s =
     (if 0 \<le> fst s \<and> fst s < int (length buf)
      then buf[nat (fst s) := scalar_add ar (buf ! nat (fst s)) (snd s)]
      else buf)"

definition scatter_add :: "arith \<Rightarrow> real list \<Rightarrow> (int \<times> real) list \<Rightarrow> real list" where
  "scatter_add ar buf adds = foldl (atomicAdd ar) buf adds"

subsection \<open>Library primitives\<close>

text \<open>The sequence primitives the source calls (\<^verbatim>\<open>std::adjacent_difference\<close>, and
  \<^verbatim>\<open>iota\<close>, \<^verbatim>\<open>transform\<close>, \<^verbatim>\<open>copy_if\<close>, \<^verbatim>\<open>exclusive_scan\<close> of \<^verbatim>\<open>comm/PSTLFunctions.h\<close>,
  \<^verbatim>\<open>inclusive_scan_by_segment\<close> of oneDPL), with their standard meaning. The first output
  of \<^verbatim>\<open>adjacent_difference\<close> is the first input, as the comment in the source says.\<close>

definition adjacent_difference :: "('a \<Rightarrow> 'a \<Rightarrow> 'a) \<Rightarrow> 'a list \<Rightarrow> 'a list" where
  "adjacent_difference f xs =
     map (\<lambda>i. if i = 0 then xs ! 0 else f (xs ! i) (xs ! (i - 1))) [0..<length xs]"

definition iota :: "nat \<Rightarrow> int \<Rightarrow> int list" where
  "iota n v = map (\<lambda>i. v + int i) [0..<n]"

definition transform :: "('a \<Rightarrow> 'b \<Rightarrow> 'c) \<Rightarrow> 'a list \<Rightarrow> 'b list \<Rightarrow> 'c list" where
  "transform f xs ys = map (\<lambda>(x, y). f x y) (zip xs ys)"

definition copy_if :: "('a \<Rightarrow> bool) \<Rightarrow> 'a list \<Rightarrow> 'a list" where
  "copy_if p xs = filter p xs"

fun exclusive_scan :: "int list \<Rightarrow> int \<Rightarrow> int list" where
  "exclusive_scan [] init = []"
| "exclusive_scan (x # xs) init = init # exclusive_scan xs (init + x)"

fun scan_by_segment :: "('v \<Rightarrow> 'v \<Rightarrow> 'v) \<Rightarrow> 'k \<Rightarrow> 'v \<Rightarrow> 'k list \<Rightarrow> 'v list \<Rightarrow> 'v list" where
  "scan_by_segment f k acc (k' # ks) (v # vs) =
     (let acc' = (if k' = k then f acc v else v) in acc' # scan_by_segment f k' acc' ks vs)"
| "scan_by_segment f k acc _ _ = []"

definition inclusive_scan_by_segment :: "('v \<Rightarrow> 'v \<Rightarrow> 'v) \<Rightarrow> 'k list \<Rightarrow> 'v list \<Rightarrow> 'v list" where
  "inclusive_scan_by_segment f ks vs =
     (case (ks, vs) of (k # ks', v # vs') \<Rightarrow> v # scan_by_segment f k v ks' vs' | _ \<Rightarrow> [])"


section \<open>Segmented backward (EmbeddingBag.cpp)\<close>

subsection \<open>Segment discovery (lines 373-415)\<close>

definition segment_offsets_stage :: "int list \<Rightarrow> error + int list" where
  "segment_offsets_stage sorted_indices =
     (let numel = length sorted_indices;
          dummy = adjacent_difference (\<lambda>lhs rhs. if lhs \<noteq> rhs then 1 else 0) sorted_indices
      in if numel = 0 then Inl IndexError
         else
           (let dummy = dummy[0 := 1];
                count_tensor = iota numel 0;
                idx_tensor = transform (\<lambda>d idx. if d \<noteq> 0 then idx else - 1) dummy count_tensor;
                segment_offsets = copy_if (\<lambda>x. x \<noteq> - 1) idx_tensor
            in Inr segment_offsets))"

text \<open>A segment runs from its start offset to the next start offset, or to the length of
  the stream for the last one: the \<^verbatim>\<open>idx_end\<close> of the kernels below.\<close>

definition segment_end :: "int list \<Rightarrow> int \<Rightarrow> int \<Rightarrow> int" where
  "segment_end offsets numel id' =
     (if id' = int (length offsets) - 1 then numel else offsets ! nat (id' + 1))"

subsection \<open>Partial-segment splitting\<close>

definition krn_partials_per_segment_kfn :: "int list \<Rightarrow> int \<Rightarrow> int \<Rightarrow> int \<Rightarrow> (int \<times> int) list" where
  "krn_partials_per_segment_kfn segment_offsets num_of_segments numel id' =
     (if id' < num_of_segments then
        (let idx_start = segment_offsets ! nat id';
             idx_end = (if id' = num_of_segments - 1 then numel else segment_offsets ! nat (id' + 1));
             size = idx_end - idx_start
         in [(id', CeilDiv size NROWS_PER_THREAD)])
      else [])"

definition krn_partials_per_segment :: "int list \<Rightarrow> int list \<Rightarrow> int \<Rightarrow> int \<Rightarrow> int list" where
  "krn_partials_per_segment ret segment_offsets num_of_segments numel =
     (let group_size = 32;
          num_groups = CeilDiv num_of_segments group_size;
          total_items = num_groups * group_size
      in scatter ret
           (parallel_for total_items (krn_partials_per_segment_kfn segment_offsets num_of_segments numel)))"

definition krn_partial_segment_offset_kfn ::
  "int list \<Rightarrow> int list \<Rightarrow> int list \<Rightarrow> int \<Rightarrow> int \<Rightarrow> (int \<times> int) list" where
  "krn_partial_segment_offset_kfn partials_per_segment partials_per_segment_offset segment_offsets
       num_of_segments id' =
     (if id' < num_of_segments then
        (let idx = partials_per_segment_offset ! nat id';
             num_partials = partials_per_segment ! nat id';
             segment_offset = segment_offsets ! nat id'
         in map (\<lambda>i. (idx + i, segment_offset + i * NROWS_PER_THREAD)) (map int [0..<nat num_partials]))
      else [])"

definition krn_partial_segment_offset ::
  "int list \<Rightarrow> int list \<Rightarrow> int list \<Rightarrow> int list \<Rightarrow> int \<Rightarrow> int list" where
  "krn_partial_segment_offset ret partials_per_segment partials_per_segment_offset segment_offsets
       num_of_segments =
     (let group_size = 32;
          num_groups = CeilDiv num_of_segments group_size;
          total_items = num_groups * group_size
      in scatter ret
           (parallel_for total_items
              (krn_partial_segment_offset_kfn partials_per_segment partials_per_segment_offset
                 segment_offsets num_of_segments)))"

subsection \<open>Gradient accumulation per partial segment\<close>

text \<open>The launch geometry that \<^verbatim>\<open>compute_grad_weight_bags\<close>, \<^verbatim>\<open>compute_grad_weight\<close> and
  \<^verbatim>\<open>sum_and_scatter\<close> each compute: \<open>(stride_warped, total_items)\<close>. The argument
  \<open>work_group_size\<close> is \<^verbatim>\<open>dpcppMaxWorkGroupSize(dev_id)\<close>, a property of the device.\<close>

definition launch_geometry :: "int \<Rightarrow> int \<Rightarrow> int \<Rightarrow> int \<times> int" where
  "launch_geometry work_group_size stride num_of_segments =
     (let stride_warped = CeilDiv stride work_group_size * work_group_size;
          group_size = min stride_warped work_group_size;
          num_groups = CeilDiv (num_of_segments * stride_warped) group_size;
          total_items = num_groups * group_size
      in (stride_warped, total_items))"

text \<open>The body of the accumulation loop of \<^verbatim>\<open>compute_grad_weight_bags\<close> for the sorted position
  \<open>idx\<close>: from \<^verbatim>\<open>weight\<close> before to \<^verbatim>\<open>weight\<close> after.\<close>

definition grad_weight_bags_step ::
  "arith \<Rightarrow> int list \<Rightarrow> real list \<Rightarrow> int list \<Rightarrow> int list option \<Rightarrow> int \<Rightarrow> bool \<Rightarrow> int list \<Rightarrow>
   (real list \<times> int) option \<Rightarrow> int \<Rightarrow> real \<Rightarrow> int \<Rightarrow> real" where
  "grad_weight_bags_step ar indices gradOutput offset2bag count' stride mode_mean bag_size
       per_sample_weights startFeature weight idx =
     (let orig_row = indices ! nat idx;
          seq_number = offset2bag ! nat orig_row;
          grad_output_row = seq_number * stride;
          scale = (case count' of Some c \<Rightarrow> acc_recip ar (c ! nat idx) | None \<Rightarrow> 1);
          scale = (case per_sample_weights of
                     Some (w, w_stride) \<Rightarrow> acc_mul ar scale (w ! nat (idx * w_stride))
                   | None \<Rightarrow> scale);
          gradient = gradOutput ! nat (grad_output_row + startFeature);
          gradient = (if mode_mean then acc_div ar gradient (bag_size ! nat seq_number)
                      else gradient)
      in acc_muladd ar weight gradient scale)"

definition compute_grad_weight_bags_kfn ::
  "arith \<Rightarrow> int \<Rightarrow> int list \<Rightarrow> real list \<Rightarrow> int list \<Rightarrow> int list option \<Rightarrow> int \<Rightarrow> int \<Rightarrow> bool \<Rightarrow>
   int list \<Rightarrow> (real list \<times> int) option \<Rightarrow> int list \<Rightarrow> int \<Rightarrow> int \<Rightarrow> (int \<times> real) list" where
  "compute_grad_weight_bags_kfn ar stride_warped indices gradOutput offset2bag count' numel stride
       mode_mean bag_size per_sample_weights segment_offsets num_of_segments gid =
     (let id' = gid sdiv stride_warped;
          startFeature = gid smod stride_warped
      in if startFeature \<ge> stride then []
         else if id' \<ge> num_of_segments then []
         else
           (let idx_begin = segment_offsets ! nat id';
                idx_end = (if id' = num_of_segments - 1 then numel else segment_offsets ! nat (id' + 1));
                weight =
                  foldl (grad_weight_bags_step ar indices gradOutput offset2bag count' stride
                           mode_mean bag_size per_sample_weights startFeature)
                    0 [idx_begin..idx_end - 1]
            in [(id' * stride + startFeature, weight)]))"

definition compute_grad_weight_bags ::
  "arith \<Rightarrow> int \<Rightarrow> int list \<Rightarrow> real list \<Rightarrow> int list \<Rightarrow> int list option \<Rightarrow> int \<Rightarrow> int \<Rightarrow> bool \<Rightarrow>
   int list \<Rightarrow> (real list \<times> int) option \<Rightarrow> int list \<Rightarrow> int \<Rightarrow> real list \<Rightarrow> real list" where
  "compute_grad_weight_bags ar work_group_size indices gradOutput offset2bag count' numel stride
       mode_mean bag_size per_sample_weights segment_offsets num_of_segments grad_weight_per_segment =
     (let (stride_warped, total_items) = launch_geometry work_group_size stride num_of_segments
      in scatter grad_weight_per_segment
           (parallel_for total_items
              (compute_grad_weight_bags_kfn ar stride_warped indices gradOutput offset2bag count'
                 numel stride mode_mean bag_size per_sample_weights segment_offsets
                 num_of_segments)))"

definition grad_weight_step ::
  "arith \<Rightarrow> int list \<Rightarrow> real list \<Rightarrow> int list option \<Rightarrow> int \<Rightarrow> int \<Rightarrow> real \<Rightarrow> int \<Rightarrow> real" where
  "grad_weight_step ar indices grad_output count' stride startFeature weight idx =
     (let target_row = indices ! nat idx;
          scale = (case count' of Some c \<Rightarrow> acc_recip ar (c ! nat idx) | None \<Rightarrow> 1)
      in acc_muladd ar weight (grad_output ! nat (target_row * stride + startFeature)) scale)"

definition compute_grad_weight_kfn ::
  "arith \<Rightarrow> int \<Rightarrow> int list \<Rightarrow> real list \<Rightarrow> int list option \<Rightarrow> int \<Rightarrow> int \<Rightarrow> int list \<Rightarrow> int \<Rightarrow>
   int \<Rightarrow> (int \<times> real) list" where
  "compute_grad_weight_kfn ar stride_warped indices grad_output count' numel stride segment_offsets
       num_of_segments gid =
     (let id' = gid sdiv stride_warped;
          startFeature = gid smod stride_warped
      in if startFeature \<ge> stride then []
         else if id' \<ge> num_of_segments then []
         else
           (let idx_begin = segment_offsets ! nat id';
                idx_end = (if id' = num_of_segments - 1 then numel else segment_offsets ! nat (id' + 1));
                weight =
                  foldl (grad_weight_step ar indices grad_output count' stride startFeature)
                    0 [idx_begin..idx_end - 1]
            in [(id' * stride + startFeature, weight)]))"

definition compute_grad_weight ::
  "arith \<Rightarrow> int \<Rightarrow> int list \<Rightarrow> real list \<Rightarrow> int list option \<Rightarrow> int \<Rightarrow> int \<Rightarrow> int list \<Rightarrow> int \<Rightarrow>
   real list \<Rightarrow> real list" where
  "compute_grad_weight ar work_group_size indices grad_output count' numel stride segment_offsets
       num_of_segments grad_weight_per_segment =
     (let (stride_warped, total_items) = launch_geometry work_group_size stride num_of_segments
      in scatter grad_weight_per_segment
           (parallel_for total_items
              (compute_grad_weight_kfn ar stride_warped indices grad_output count' numel stride
                 segment_offsets num_of_segments)))"

subsection \<open>Final reduction and scatter\<close>

definition sum_and_scatter_kfn ::
  "arith \<Rightarrow> int \<Rightarrow> int list \<Rightarrow> int \<Rightarrow> int list \<Rightarrow> int \<Rightarrow> real list \<Rightarrow> int list \<Rightarrow> int \<Rightarrow> int \<Rightarrow>
   int \<Rightarrow> (int \<times> real) list" where
  "sum_and_scatter_kfn ar stride_warped input stride segment_offsets num_of_segments
       grad_weight_per_segment segment_sizes_offsets num_of_partial_segments padding_idx gid =
     (let id' = gid sdiv stride_warped;
          startFeature = gid smod stride_warped
      in if startFeature \<ge> stride then []
         else if id' \<ge> num_of_segments then []
         else
           (let idx_begin = segment_sizes_offsets ! nat id';
                idx_end = (if id' = num_of_segments - 1 then num_of_partial_segments
                           else segment_sizes_offsets ! nat (id' + 1));
                weight =
                  foldl (\<lambda>weight idx.
                      acc_add ar weight (grad_weight_per_segment ! nat (idx * stride + startFeature)))
                    0 [idx_begin..idx_end - 1];
                target_row = input ! nat (segment_offsets ! nat id')
            in if target_row \<noteq> padding_idx
               then [(target_row * stride + startFeature, to_scalar ar weight)]
               else []))"

text \<open>\<open>sum_and_scatter_stores\<close> is the list of stores into \<^verbatim>\<open>grad_weight\<close> that the kernel
  issues; \<open>sum_and_scatter\<close> applies them.\<close>

definition sum_and_scatter_stores ::
  "arith \<Rightarrow> int \<Rightarrow> int list \<Rightarrow> int \<Rightarrow> int list \<Rightarrow> int \<Rightarrow> real list \<Rightarrow> int list \<Rightarrow> int \<Rightarrow> int \<Rightarrow>
   (int \<times> real) list" where
  "sum_and_scatter_stores ar work_group_size input stride segment_offsets num_of_segments
       grad_weight_per_segment segment_sizes_offsets num_of_partial_segments padding_idx =
     (let (stride_warped, total_items) = launch_geometry work_group_size stride num_of_segments
      in parallel_for total_items
           (sum_and_scatter_kfn ar stride_warped input stride segment_offsets num_of_segments
              grad_weight_per_segment segment_sizes_offsets num_of_partial_segments padding_idx))"

definition sum_and_scatter ::
  "arith \<Rightarrow> int \<Rightarrow> int list \<Rightarrow> real list \<Rightarrow> int \<Rightarrow> int list \<Rightarrow> int \<Rightarrow> real list \<Rightarrow> int list \<Rightarrow> int \<Rightarrow>
   int \<Rightarrow> real list" where
  "sum_and_scatter ar work_group_size input grad_weight stride segment_offsets num_of_segments
       grad_weight_per_segment segment_sizes_offsets num_of_partial_segments padding_idx =
     scatter grad_weight
       (sum_and_scatter_stores ar work_group_size input stride segment_offsets num_of_segments
          grad_weight_per_segment segment_sizes_offsets num_of_partial_segments padding_idx)"

subsection \<open>The segmented backward and its callers\<close>

text \<open>Lines 417-451 of \<^verbatim>\<open>embedding_bag_backward_dpcpp_kernel\<close>: the partial count of every
  segment, their exclusive scan, the total, and the flattened partial-segment offsets.\<close>

definition partial_segments_stage :: "int list \<Rightarrow> int \<Rightarrow> int \<Rightarrow> int list \<times> int list \<times> int \<times> int list" where
  "partial_segments_stage segment_offsets num_of_segments numel =
     (let partials_per_segment =
            krn_partials_per_segment (at_empty (nat num_of_segments)) segment_offsets
              num_of_segments numel;
          partials_per_segment_offset = exclusive_scan partials_per_segment 0;
          num_of_partial_segments =
            partials_per_segment ! nat (num_of_segments - 1) +
            partials_per_segment_offset ! nat (num_of_segments - 1);
          partial_segment_offset =
            krn_partial_segment_offset (at_empty (nat num_of_partial_segments))
              partials_per_segment partials_per_segment_offset segment_offsets num_of_segments
      in (partials_per_segment, partials_per_segment_offset, num_of_partial_segments,
          partial_segment_offset))"

text \<open>The dispatch macro instantiates the kernels at the element type of \<^verbatim>\<open>grad\<close>; \<open>ar\<close> gives
  the arithmetic of each element type.\<close>

definition embedding_bag_backward_dpcpp_kernel ::
  "(ScalarType \<Rightarrow> arith) \<Rightarrow> int \<Rightarrow> tensor \<Rightarrow> int list \<Rightarrow> int list \<Rightarrow> int list option \<Rightarrow> nat \<Rightarrow> int \<Rightarrow>
   bool \<Rightarrow> bool \<Rightarrow> int list option \<Rightarrow> int list \<Rightarrow> (real list \<times> int) option \<Rightarrow> error + tensor" where
  "embedding_bag_backward_dpcpp_kernel ar work_group_size grad orig_indices sorted_indices count'
       num_weights padding_idx scale_grad_by_freq mode_mean offset2bag bag_size per_sample_weights =
     (let numel = int (length sorted_indices);
          grad_weight = at_zeros num_weights (size1 grad) (scalar_type grad);
          stride = int (size1 grad)
      in case segment_offsets_stage sorted_indices of
           Inl e \<Rightarrow> Inl e
         | Inr segment_offsets \<Rightarrow>
            (let num_of_segments = int (length segment_offsets)
             in case partial_segments_stage segment_offsets num_of_segments numel of
                  (partials_per_segment, partials_per_segment_offset, num_of_partial_segments,
                   partial_segment_offset) \<Rightarrow>
                    if scalar_type grad \<notin> {Float, Double, BFloat16} then Inl NotImplemented
                    else
                      (let grad_weight_per_segment =
                             at_empty (nat num_of_partial_segments * nat stride);
                           grad_weight_per_segment =
                             (case offset2bag of
                                Some o2b \<Rightarrow>
                                  compute_grad_weight_bags (ar (scalar_type grad)) work_group_size
                                    orig_indices (data grad) o2b count' numel stride mode_mean
                                    bag_size per_sample_weights partial_segment_offset
                                    num_of_partial_segments grad_weight_per_segment
                              | None \<Rightarrow>
                                  compute_grad_weight (ar (scalar_type grad)) work_group_size
                                    orig_indices (data grad) count' numel stride
                                    partial_segment_offset num_of_partial_segments
                                    grad_weight_per_segment)
                       in Inr (grad_weight\<lparr>data :=
                            sum_and_scatter (ar (scalar_type grad)) work_group_size sorted_indices
                              (data grad_weight) stride segment_offsets num_of_segments
                              grad_weight_per_segment partials_per_segment_offset
                              num_of_partial_segments padding_idx\<rparr>))))"

text \<open>The frequency counts of \<^verbatim>\<open>scale_grad_by_freq\<close>: a running count per run of equal
  sorted indices, then its maximum per run taken in reverse.\<close>

definition frequency_counts :: "int list \<Rightarrow> int list" where
  "frequency_counts sorted_indices =
     (let count' = replicate (length sorted_indices) (1::int);
          count' = inclusive_scan_by_segment (+) sorted_indices count'
      in rev (inclusive_scan_by_segment max (rev sorted_indices) (rev count')))"

definition embedding_bag_backward_dpcpp_sum_avg ::
  "(ScalarType \<Rightarrow> arith) \<Rightarrow> ((int \<times> int) list \<Rightarrow> (int \<times> int) list) \<Rightarrow> int \<Rightarrow> tensor \<Rightarrow> int list \<Rightarrow>
   int list \<Rightarrow> int list option \<Rightarrow> int list \<Rightarrow> nat \<Rightarrow> bool \<Rightarrow> int \<Rightarrow> (real list \<times> int) option \<Rightarrow>
   error + tensor" where
  "embedding_bag_backward_dpcpp_sum_avg ar sort_fn work_group_size grad indices offsets offset2bag
       bag_size num_weights scale_grad_by_freq mode per_sample_weights =
     (let numel = length indices
      in if numel = 0 then Inr (at_zeros num_weights (size1 grad) (scalar_type grad))
         else
           (let zipped = sort_fn (zip indices (iota numel 0));
                sorted_indices = map fst zipped;
                orig_indices = map snd zipped;
                count' = (if scale_grad_by_freq then Some (frequency_counts sorted_indices) else None)
            in embedding_bag_backward_dpcpp_kernel ar work_group_size grad orig_indices
                 sorted_indices count' num_weights (- 1) scale_grad_by_freq (mode = MODE_MEAN)
                 offset2bag bag_size per_sample_weights))"

subsection \<open>Max-mode backward\<close>

text \<open>The two-dimensional kernels run a grid-stride loop: the work-item with group \<open>g\<close> and
  local ids \<open>(l0, l1)\<close> takes the chunks \<open>g * L1 + l1\<close>, plus the whole grid width, and so on
  below \<open>numChunks\<close>; every chunk is taken by exactly one pair \<open>(g, l1)\<close>, for each \<open>l0\<close> below
  the local range. \<open>grid_stride_for\<close> enumerates these (chunk, local id 0) pairs.\<close>

definition grid_stride_for :: "int \<Rightarrow> int \<Rightarrow> (int \<Rightarrow> int \<Rightarrow> 's list) \<Rightarrow> 's list" where
  "grid_stride_for numChunks local_range0 kfn =
     concat (map (\<lambda>chunk. concat (map (kfn chunk) (map int [0..<nat local_range0])))
       (map int [0..<nat numChunks]))"

definition EmbeddingBag_accGradParametersKernel_max_kfn ::
  "int list \<Rightarrow> real list \<Rightarrow> int \<Rightarrow> int \<Rightarrow> int \<Rightarrow> int \<Rightarrow> (int \<times> real) list" where
  "EmbeddingBag_accGradParametersKernel_max_kfn max_indices gradOutput stride chunksPerBag chunk
       local_id0 =
     (let featureDim = (chunk smod chunksPerBag) * 64 + local_id0
      in if featureDim < stride then
           (let bag = chunk sdiv chunksPerBag;
                word_idx = max_indices ! nat (bag * stride + featureDim)
            in if word_idx \<ge> 0 then
                 [(word_idx * stride + featureDim, gradOutput ! nat (bag * stride + featureDim))]
               else [])
         else [])"

definition EmbeddingBag_accGradParametersKernel_max ::
  "arith \<Rightarrow> int list \<Rightarrow> real list \<Rightarrow> real list \<Rightarrow> int \<Rightarrow> int \<Rightarrow> real list" where
  "EmbeddingBag_accGradParametersKernel_max ar max_indices gradOutput gradWeight stride numBags =
     (let chunksPerBag = CeilDiv stride 64;
          numChunks = numBags * chunksPerBag
      in scatter_add ar gradWeight
           (grid_stride_for numChunks 64
              (EmbeddingBag_accGradParametersKernel_max_kfn max_indices gradOutput stride chunksPerBag)))"

text \<open>\<^verbatim>\<open>Tensor::data_ptr<float>()\<close> checks the element type of the tensor and throws when it
  is not \<^verbatim>\<open>float\<close>.\<close>

definition data_ptr_float :: "tensor \<Rightarrow> error + real list" where
  "data_ptr_float t = (if scalar_type t = Float then Inr (data t) else Inl DTypeMismatch)"

text \<open>The kernel is instantiated at \<^verbatim>\<open>float\<close> whatever the element type of \<^verbatim>\<open>grad\<close> is.\<close>

definition embedding_bag_backward_dpcpp_max ::
  "(ScalarType \<Rightarrow> arith) \<Rightarrow> tensor \<Rightarrow> int list \<Rightarrow> nat \<Rightarrow> error + tensor" where
  "embedding_bag_backward_dpcpp_max ar grad max_indices num_weights =
     (let grad_weight = at_zeros num_weights (size1 grad) (scalar_type grad);
          stride = int (size1 grad);
          numBags = int (size0 grad)
      in case data_ptr_float grad of
           Inl e \<Rightarrow> Inl e
         | Inr grad_data \<Rightarrow>
            (case data_ptr_float grad_weight of
               Inl e \<Rightarrow> Inl e
             | Inr grad_weight_data \<Rightarrow>
                 Inr (grad_weight\<lparr>data :=
                   EmbeddingBag_accGradParametersKernel_max (ar Float) max_indices grad_data
                     grad_weight_data stride numBags\<rparr>)))"

subsection \<open>Dense backward dispatch\<close>

text \<open>\<^verbatim>\<open>_embedding_bag_dense_backward_dpcpp\<close>: the result, and before it the steps started on the
  way, in order.\<close>

definition embedding_bag_dense_backward_dpcpp ::
  "(ScalarType \<Rightarrow> arith) \<Rightarrow> ((int \<times> int) list \<Rightarrow> (int \<times> int) list) \<Rightarrow> int \<Rightarrow> strided_tensor \<Rightarrow>
   int list \<Rightarrow> int list \<Rightarrow> int list option \<Rightarrow> int list \<Rightarrow> int list \<Rightarrow> nat \<Rightarrow> bool \<Rightarrow> int \<Rightarrow>
   (real list \<times> int) option \<Rightarrow> step list \<times> (error + tensor)" where
  "embedding_bag_dense_backward_dpcpp ar sort_fn work_group_size grad0 indices offsets offset2bag
       bag_size0 max_indices num_weights scale_grad_by_freq mode per_sample_weights =
     (let (copy, grad) = contiguous grad0
      in if mode = MODE_SUM \<or> mode = MODE_MEAN then
           (if mode = MODE_MEAN \<and> per_sample_weights \<noteq> None then (copy, Inl InternalAssert)
            else (copy @ [Call_sum_avg],
                  embedding_bag_backward_dpcpp_sum_avg ar sort_fn work_group_size grad indices
                    offsets offset2bag bag_size0 num_weights scale_grad_by_freq mode
                    per_sample_weights))
         else if mode = MODE_MAX then
           (if per_sample_weights \<noteq> None then (copy, Inl InternalAssert)
            else (copy @ [Call_max], embedding_bag_backward_dpcpp_max ar grad max_indices num_weights))
         else (copy, Inl (UnknownMode mode)))"

section \<open>Forward pooling (EmbeddingBag.cpp)\<close>

text \<open>The forward kernel writes four buffers; a store names its buffer.\<close>

datatype fwd_store =
    Output int real
  | Offset2bag int int
  | Bag_size int int
  | Max_indices int int

fun output_stores :: "fwd_store list \<Rightarrow> (int \<times> real) list" where
  "output_stores [] = []"
| "output_stores (Output a v # ss) = (a, v) # output_stores ss"
| "output_stores (_ # ss) = output_stores ss"

fun offset2bag_stores :: "fwd_store list \<Rightarrow> (int \<times> int) list" where
  "offset2bag_stores [] = []"
| "offset2bag_stores (Offset2bag a v # ss) = (a, v) # offset2bag_stores ss"
| "offset2bag_stores (_ # ss) = offset2bag_stores ss"

fun bag_size_stores :: "fwd_store list \<Rightarrow> (int \<times> int) list" where
  "bag_size_stores [] = []"
| "bag_size_stores (Bag_size a v # ss) = (a, v) # bag_size_stores ss"
| "bag_size_stores (_ # ss) = bag_size_stores ss"

fun max_indices_stores :: "fwd_store list \<Rightarrow> (int \<times> int) list" where
  "max_indices_stores [] = []"
| "max_indices_stores (Max_indices a v # ss) = (a, v) # max_indices_stores ss"
| "max_indices_stores (_ # ss) = max_indices_stores ss"

text \<open>The local variables of one (bag, feature) worker. \<^verbatim>\<open>weightFeatMax\<close> is declared
  without a value; it is read only after the first lookup of the bag has set it
  (\<^verbatim>\<open>emb == begin ||\<close> comes first), so the \<open>0\<close> it starts with here is never compared.\<close>

record bag_acc =
  weightFeatSum :: real
  weightFeatMax :: real
  bag_size_acc :: int
  maxWord :: int

definition updateOutput_step ::
  "arith \<Rightarrow> int list \<Rightarrow> real list \<Rightarrow> int \<Rightarrow> int \<Rightarrow> int \<Rightarrow> (real list \<times> int) option \<Rightarrow> int \<Rightarrow> int \<Rightarrow>
   bag_acc \<Rightarrow> int \<Rightarrow> bag_acc" where
  "updateOutput_step ar input weight weight_stride0 weight_stride1 mode per_sample_weights
       featureDim begin' acc emb =
     (let weightRow = input ! nat emb * weight_stride0;
          weightValue = weight ! nat (featureDim * weight_stride1 + weightRow);
          acc =
            (if mode = MODE_MAX then
               (if emb = begin' \<or> weightValue > weightFeatMax acc then
                  acc\<lparr>weightFeatMax := weightValue, maxWord := input ! nat emb\<rparr>
                else acc)
             else
               (case per_sample_weights of
                  Some (w, w_stride) \<Rightarrow>
                    acc\<lparr>weightFeatSum :=
                      acc_muladd ar (weightFeatSum acc) (w ! nat (emb * w_stride)) weightValue\<rparr>
                | None \<Rightarrow> acc\<lparr>weightFeatSum := acc_add ar (weightFeatSum acc) weightValue\<rparr>))
      in acc\<lparr>bag_size_acc := bag_size_acc acc + 1\<rparr>)"

definition EmbeddingBag_updateOutputKernel_kfn ::
  "arith \<Rightarrow> int list \<Rightarrow> int list \<Rightarrow> real list \<Rightarrow> int \<Rightarrow> int \<Rightarrow> int \<Rightarrow> int \<Rightarrow> int \<Rightarrow> int \<Rightarrow>
   (real list \<times> int) option \<Rightarrow> int \<Rightarrow> int \<Rightarrow> int \<Rightarrow> int \<Rightarrow> fwd_store list" where
  "EmbeddingBag_updateOutputKernel_kfn ar input offsets weight numIndices numBags featureSize
       weight_stride0 weight_stride1 mode per_sample_weights workersPerChunk chunksPerBag chunk
       local_id0 =
     (let featureDim = (chunk smod chunksPerBag) * workersPerChunk + local_id0
      in if featureDim < featureSize then
           (let bag = chunk sdiv chunksPerBag;
                begin' = offsets ! nat bag;
                end' = (if bag < numBags - 1 then offsets ! nat (bag + 1) else numIndices);
                acc = foldl (updateOutput_step ar input weight weight_stride0 weight_stride1 mode
                               per_sample_weights featureDim begin')
                        \<lparr>weightFeatSum = 0, weightFeatMax = 0, bag_size_acc = 0, maxWord = - 1\<rparr>
                        [begin'..end' - 1];
                offset2bag_writes =
                  (if featureDim = 0 then map (\<lambda>emb. Offset2bag emb bag) [begin'..end' - 1] else []);
                bag_size_writes =
                  (if mode = MODE_MEAN then
                     (if end' = begin' then [Bag_size bag 0] else [Bag_size bag (bag_size_acc acc)])
                   else []);
                acc = (if mode = MODE_MEAN \<and> end' \<noteq> begin' then
                         acc\<lparr>weightFeatSum := acc_div ar (weightFeatSum acc) (bag_size_acc acc)\<rparr>
                       else acc);
                output_writes =
                  (if mode = MODE_MEAN \<or> mode = MODE_SUM then
                     [Output (bag * featureSize + featureDim) (to_scalar ar (weightFeatSum acc))]
                   else if mode = MODE_MAX then
                     (let acc = (if end' = begin' then acc\<lparr>weightFeatMax := 0\<rparr> else acc)
                      in [Max_indices (bag * featureSize + featureDim) (maxWord acc),
                          Output (bag * featureSize + featureDim) (weightFeatMax acc)])
                   else [])
            in offset2bag_writes @ bag_size_writes @ output_writes)
         else [])"

definition EmbeddingBag_updateOutputKernel ::
  "arith \<Rightarrow> int list \<Rightarrow> int list \<Rightarrow> real list \<Rightarrow> int \<Rightarrow> int \<Rightarrow> int \<Rightarrow> int \<Rightarrow> int \<Rightarrow> int \<Rightarrow>
   (real list \<times> int) option \<Rightarrow> fwd_store list" where
  "EmbeddingBag_updateOutputKernel ar input offsets weight numIndices numBags featureSize
       weight_stride0 weight_stride1 mode per_sample_weights =
     (let workersPerChunk =
            (if featureSize < 64 \<and> featureSize \<ge> 32 then 32 else if featureSize < 32 then 16 else 64);
          chunksPerBag = CeilDiv featureSize workersPerChunk;
          numChunks = numBags * chunksPerBag
      in grid_stride_for numChunks workersPerChunk
           (EmbeddingBag_updateOutputKernel_kfn ar input offsets weight numIndices numBags
              featureSize weight_stride0 weight_stride1 mode per_sample_weights workersPerChunk
              chunksPerBag))"

text \<open>\<^verbatim>\<open>_embedding_bag_dpcpp\<close>: the result is (output, offset2bag, bag_size, max_indices).
  \<^verbatim>\<open>max_indices\<close> is always allocated (\<^verbatim>\<open>if (MODE_MAX)\<close> tests the constant 2), and the
  kernel stores into it in max mode only.\<close>

definition embedding_bag_dpcpp ::
  "(ScalarType \<Rightarrow> arith) \<Rightarrow> tensor \<Rightarrow> int list \<Rightarrow> int list \<Rightarrow> bool \<Rightarrow> int \<Rightarrow> bool \<Rightarrow>
   (real list \<times> int) option \<Rightarrow> error + (tensor \<times> int list \<times> int list \<times> int list)" where
  "embedding_bag_dpcpp ar weight indices offsets scale_grad_by_freq mode sparse per_sample_weights =
     (let numIndices = int (length indices);
          numBags = int (length offsets);
          featureSize = int (size1 weight);
          bag_size = at_empty (length offsets);
          offset2bag = at_empty (length indices);
          output = at_empty (length offsets * size1 weight);
          max_indices = at_empty (length offsets * size1 weight)
      in if scalar_type weight \<in> {Float, Double, Half, BFloat16} then
           (let stores = EmbeddingBag_updateOutputKernel (ar (scalar_type weight)) indices offsets
                           (data weight) numIndices numBags featureSize (int (size1 weight)) 1 mode
                           per_sample_weights
            in Inr (\<lparr>scalar_type = scalar_type weight, size0 = length offsets, size1 = size1 weight,
                       data = scatter output (output_stores stores)\<rparr>,
                    scatter offset2bag (offset2bag_stores stores),
                    scatter bag_size (bag_size_stores stores),
                    scatter max_indices (max_indices_stores stores)))
         else Inl NotImplemented)"

section \<open>Reductions (ReduceOpAminmax.cpp, ReduceOpLogical.cpp)\<close>

subsection \<open>Min/max pair\<close>

text \<open>A floating value is either NaN or a number of a linear order (which may hold the
  infinities): comparisons with NaN are false.\<close>

datatype 'a fp = NaN | Num 'a

definition isnan :: "'a fp \<Rightarrow> bool" where
  "isnan x = (case x of NaN \<Rightarrow> True | Num _ \<Rightarrow> False)"

definition fp_less :: "('a::linorder) fp \<Rightarrow> 'a fp \<Rightarrow> bool" where
  "fp_less x y = (case (x, y) of (Num a, Num b) \<Rightarrow> a < b | _ \<Rightarrow> False)"

definition MinMaxOps_combine :: "('a::linorder) fp \<times> 'a fp \<Rightarrow> 'a fp \<times> 'a fp \<Rightarrow> 'a fp \<times> 'a fp" where
  "MinMaxOps_combine a b =
     (let min_val = (if isnan (fst a) \<or> fp_less (fst a) (fst b) then fst a else fst b);
          max_val = (if isnan (snd a) \<or> fp_less (snd b) (snd a) then snd a else snd b)
      in (min_val, max_val))"

definition MinMaxOps_reduce :: "('a::linorder) fp \<times> 'a fp \<Rightarrow> 'a fp \<Rightarrow> int \<Rightarrow> 'a fp \<times> 'a fp" where
  "MinMaxOps_reduce acc data' idx = MinMaxOps_combine acc (data', data')"

definition MinMaxOps_project :: "'a fp \<times> 'a fp \<Rightarrow> 'a fp \<times> 'a fp" where
  "MinMaxOps_project acc = acc"

text \<open>Modelled from the spec: \<^verbatim>\<open>dpcpp_reduce_kernel\<close> (\<^verbatim>\<open>Reduce.h\<close>) is not under src/; the
  spec calls it an associative-commutative elementwise reduction over a generic iteration.
  A schedule is any way to reach the result from the identity pair with \<^verbatim>\<open>reduce\<close> and
  \<^verbatim>\<open>combine\<close>; \<open>elements\<close> are the input elements it consumes.\<close>

datatype 'a schedule =
    Identity
  | Reduce "'a schedule" 'a
  | Combine "'a schedule" "'a schedule"

fun run_schedule :: "('a::linorder) fp \<times> 'a fp \<Rightarrow> 'a fp schedule \<Rightarrow> 'a fp \<times> 'a fp" where
  "run_schedule ident Identity = ident"
| "run_schedule ident (Reduce s x) = MinMaxOps_reduce (run_schedule ident s) x 0"
| "run_schedule ident (Combine l r) = MinMaxOps_combine (run_schedule ident l) (run_schedule ident r)"

fun elements :: "'a schedule \<Rightarrow> 'a list" where
  "elements Identity = []"
| "elements (Reduce s x) = elements s @ [x]"
| "elements (Combine l r) = elements l @ elements r"

definition min_max_values_kernel :: "('a::linorder) fp \<times> 'a fp \<Rightarrow> 'a fp schedule \<Rightarrow> 'a fp \<times> 'a fp" where
  "min_max_values_kernel limits s = MinMaxOps_project (run_schedule limits s)"

subsection \<open>Logical all/any\<close>

text \<open>The iterator of a reduction, as the list of the input elements behind each element of
  the result; \<^verbatim>\<open>iter.numel()\<close> counts the input elements. The result holds 0 or 1.\<close>

definition iter_numel :: "'a list list \<Rightarrow> nat" where
  "iter_numel iter = sum_list (map length iter)"

definition fill :: "int list \<Rightarrow> int \<Rightarrow> int list" where
  "fill result v = map (\<lambda>_. v) result"

definition ReduceAndOps :: "('a::zero) \<Rightarrow> 'a \<Rightarrow> bool" where
  "ReduceAndOps a b = (a \<noteq> 0 \<and> b \<noteq> 0)"

definition ReduceOrOps :: "('a::zero) \<Rightarrow> 'a \<Rightarrow> bool" where
  "ReduceOrOps a b = (a \<noteq> 0 \<or> b \<noteq> 0)"

text \<open>Modelled from the spec: \<^verbatim>\<open>dpcpp_reduce_kernel\<close> (\<^verbatim>\<open>Reduce.h\<close>) is not under src/; the
  spec has all/any reduce via logical AND/OR from the identity values true/false. The
  accumulator is a \<^verbatim>\<open>bool\<close>, passed to the functor as a scalar.\<close>

definition and_kernel :: "('a::zero_neq_one) list list \<Rightarrow> int list" where
  "and_kernel iter = map (\<lambda>slice. of_bool (foldl (\<lambda>acc x. ReduceAndOps (of_bool acc) x) True slice)) iter"

definition or_kernel :: "('a::zero_neq_one) list list \<Rightarrow> int list" where
  "or_kernel iter = map (\<lambda>slice. of_bool (foldl (\<lambda>acc x. ReduceOrOps (of_bool acc) x) False slice)) iter"

text \<open>\<^verbatim>\<open>_all\<close> and \<^verbatim>\<open>_any\<close> return the result and, beside it, the kernels they launched.\<close>

datatype launch = And_kernel | Or_kernel

definition all_impl :: "int list \<Rightarrow> ('a::zero_neq_one) list list \<Rightarrow> int list \<times> launch list" where
  "all_impl result iter =
     (if iter_numel iter = 0 then (fill result 1, []) else (and_kernel iter, [And_kernel]))"

definition any_impl :: "int list \<Rightarrow> ('a::zero_neq_one) list list \<Rightarrow> int list \<times> launch list" where
  "any_impl result iter =
     (if iter_numel iter = 0 then (fill result 0, []) else (or_kernel iter, [Or_kernel]))"

section \<open>Notions of the statements and proofs\<close>

text \<open>The segment starts in the words of the spec: position 0 and every position whose
  value differs from its predecessor, compacted in increasing order; the end \<open>nend\<close> of the
  \<open>k\<close>-th range of a list of start positions. Over natural numbers, for a valid list of
  starts: the length \<open>seg_len\<close> of a segment, its number \<open>cnt\<close> of partial segments, the
  place \<open>pstart\<close> of its run in the flattened array, the stores \<open>offset_stores\<close> of the
  offset kernel for it, the end \<open>pend\<close> of its \<open>j\<close>-th partial segment, and the flattened
  array \<open>pso_of\<close> itself.\<close>

definition boundary :: "int list \<Rightarrow> nat \<Rightarrow> bool" where
  "boundary xs i = (i = 0 \<or> xs ! i \<noteq> xs ! (i - 1))"

definition seg_starts :: "int list \<Rightarrow> nat list" where
  "seg_starts xs = filter (boundary xs) [0..<length xs]"

definition nend :: "nat list \<Rightarrow> nat \<Rightarrow> nat \<Rightarrow> nat" where
  "nend so n k = (if Suc k = length so then n else so ! Suc k)"

definition valid_starts :: "nat list \<Rightarrow> nat \<Rightarrow> bool" where
  "valid_starts so n = (so \<noteq> [] \<and> sorted_wrt (<) so \<and> (\<forall>x\<in>set so. x < n))"

definition seg_len :: "nat list \<Rightarrow> nat \<Rightarrow> nat \<Rightarrow> nat" where
  "seg_len so n k = nend so n k - so ! k"

definition cnt :: "nat list \<Rightarrow> nat \<Rightarrow> nat \<Rightarrow> nat" where
  "cnt so n k = (seg_len so n k + 9) div 10"

definition pstart :: "nat list \<Rightarrow> nat \<Rightarrow> nat \<Rightarrow> nat" where
  "pstart so n k = sum_list (map (cnt so n) [0..<k])"

definition offset_stores :: "nat list \<Rightarrow> nat \<Rightarrow> nat \<Rightarrow> (int \<times> int) list" where
  "offset_stores so n k =
     map (\<lambda>j. (int (pstart so n k + j), int (so ! k + 10 * j))) [0..<cnt so n k]"

definition pend :: "nat list \<Rightarrow> nat \<Rightarrow> nat \<Rightarrow> nat \<Rightarrow> nat" where
  "pend so n k j = (if Suc j < cnt so n k then so ! k + 10 * Suc j else nend so n k)"

definition pso_of :: "nat list \<Rightarrow> nat \<Rightarrow> int list" where
  "pso_of so n =
     krn_partial_segment_offset (at_empty (pstart so n (length so)))
       (map (\<lambda>k. int (cnt so n k)) [0..<length so])
       (map (\<lambda>k. int (pstart so n k)) [0..<length so]) (map int so) (int (length so))"

definition guarded_item :: "int \<Rightarrow> int \<Rightarrow> int \<Rightarrow> (int \<Rightarrow> int \<Rightarrow> 'a list) \<Rightarrow> int \<Rightarrow> 'a list" where
  "guarded_item stride_warped stride ns body gid =
     (let id' = gid sdiv stride_warped;
          startFeature = gid smod stride_warped
      in if startFeature \<ge> stride then [] else if id' \<ge> ns then [] else body id' startFeature)"

definition warp :: "nat \<Rightarrow> nat \<Rightarrow> nat" where
  "warp wg s = ((s + wg - 1) div wg) * wg"

definition segment_weight ::
  "arith \<Rightarrow> real list \<Rightarrow> int \<Rightarrow> int list \<Rightarrow> int \<Rightarrow> nat \<Rightarrow> nat \<Rightarrow> real" where
  "segment_weight ar gwps stride ppso npart k f =
     to_scalar ar
       (foldl (\<lambda>weight idx. acc_add ar weight (gwps ! nat (idx * stride + int f))) 0
          [ppso ! k..segment_end ppso npart (int k) - 1])"

definition scatter_stores_of :: "int list \<Rightarrow> nat list \<Rightarrow> nat \<Rightarrow> int \<Rightarrow> (nat \<Rightarrow> nat \<Rightarrow> real) \<Rightarrow> (int \<times> real) list" where
  "scatter_stores_of xs so s pad W =
     map (\<lambda>(k, f). (xs ! (so ! k) * int s + int f, W k f))
       (filter (\<lambda>(k, f). xs ! (so ! k) \<noteq> pad) (List.product [0..<length so] [0..<s]))"

text \<open>The accumulation of a loop body \<open>step\<close> over the sorted positions \<open>[a, b)\<close>, from zero;
  the accumulation of a whole segment: the accumulations of its partial segments, added up
  in order from zero; and the value a row of the result gets: that of the segment whose index
  value is the row, converted to the element type, or zero when there is no such segment.\<close>

definition chunk_acc :: "(real \<Rightarrow> nat \<Rightarrow> real) \<Rightarrow> nat \<Rightarrow> nat \<Rightarrow> real" where
  "chunk_acc step a b = foldl step 0 [a..<b]"

definition segment_acc :: "arith \<Rightarrow> (real \<Rightarrow> nat \<Rightarrow> real) \<Rightarrow> nat list \<Rightarrow> nat \<Rightarrow> nat \<Rightarrow> real" where
  "segment_acc ar step so n k =
     foldl (\<lambda>w j. acc_add ar w (chunk_acc step (so ! k + 10 * j) (pend so n k j))) 0
       [0..<cnt so n k]"

definition row_value :: "arith \<Rightarrow> (real \<Rightarrow> nat \<Rightarrow> real) \<Rightarrow> int list \<Rightarrow> int \<Rightarrow> real" where
  "row_value ar step xs r =
     (case find (\<lambda>k. xs ! (seg_starts xs ! k) = r) [0..<length (seg_starts xs)] of
        None \<Rightarrow> 0
      | Some k \<Rightarrow> to_scalar ar (segment_acc ar step (seg_starts xs) (length xs) k))"

definition gwps_ok :: "nat list \<Rightarrow> nat \<Rightarrow> nat \<Rightarrow> (nat \<Rightarrow> real \<Rightarrow> nat \<Rightarrow> real) \<Rightarrow> real list \<Rightarrow> bool" where
  "gwps_ok so n s c gwps =
     (\<forall>k<length so. \<forall>j<cnt so n k. \<forall>f<s.
        gwps ! ((pstart so n k + j) * s + f) = chunk_acc (c f) (so ! k + 10 * j) (pend so n k j))"

definition kernel_step ::
  "arith \<Rightarrow> int list \<Rightarrow> real list \<Rightarrow> int list option \<Rightarrow> int list option \<Rightarrow> nat \<Rightarrow> bool \<Rightarrow> int list \<Rightarrow>
   (real list \<times> int) option \<Rightarrow> nat \<Rightarrow> real \<Rightarrow> nat \<Rightarrow> real" where
  "kernel_step ar orig gradOutput o2b cn s mm bs psw f w i =
     (case o2b of
        Some ob \<Rightarrow> grad_weight_bags_step ar orig gradOutput ob cn (int s) mm bs psw (int f) w (int i)
      | None \<Rightarrow> grad_weight_step ar orig gradOutput cn (int s) (int f) w (int i))"







section \<open>Verification: reductions and dispatch\<close>

lemma combine_fst_nan:
  "isnan (fst a) \<or> isnan (fst b) \<Longrightarrow> isnan (fst (MinMaxOps_combine a b))"
  by (auto simp: MinMaxOps_combine_def isnan_def fp_less_def split: fp.splits)

lemma combine_snd_nan:
  "isnan (snd a) \<or> isnan (snd b) \<Longrightarrow> isnan (snd (MinMaxOps_combine a b))"
  by (auto simp: MinMaxOps_combine_def isnan_def fp_less_def split: fp.splits)

lemma isnan_iff: "isnan x \<longleftrightarrow> x = NaN"
  by (cases x) (simp_all add: isnan_def)

lemma run_schedule_nan:
  "NaN \<in> set (elements s) \<Longrightarrow>
     isnan (fst (run_schedule ident s)) \<and> isnan (snd (run_schedule ident s))"
proof (induction s)
  case Identity
  then show ?case by simp
next
  case (Reduce s x)
  show ?case
  proof (cases "x = NaN")
    case True
    then show ?thesis
      using combine_fst_nan [of "run_schedule ident s" "(x, x)"]
        combine_snd_nan [of "run_schedule ident s" "(x, x)"]
      by (simp add: MinMaxOps_reduce_def isnan_iff)
  next
    case False
    with Reduce have "isnan (fst (run_schedule ident s)) \<and> isnan (snd (run_schedule ident s))"
      by simp
    then show ?thesis
      by (simp add: MinMaxOps_reduce_def combine_fst_nan combine_snd_nan)
  qed
next
  case (Combine l r)
  then have "NaN \<in> set (elements l) \<or> NaN \<in> set (elements r)"
    by simp
  then show ?case
  proof
    assume "NaN \<in> set (elements l)"
    with Combine show ?thesis
      by (simp add: combine_fst_nan combine_snd_nan)
  next
    assume "NaN \<in> set (elements r)"
    with Combine show ?thesis
      by (simp add: combine_fst_nan combine_snd_nan)
  qed
qed

text \<open>C5. NaN propagates through the min/max pair: \<^verbatim>\<open>combine\<close> returns a NaN component as
  soon as one of the two corresponding components is NaN, an accumulator that holds NaN
  keeps it under \<^verbatim>\<open>reduce\<close>, and every reduction that consumes a NaN element ends with
  both the minimum and the maximum NaN.\<close>

theorem minmax_nan_propagates:
  fixes a b acc limits :: "('a::linorder) fp \<times> 'a fp" and x :: "'a fp" and s :: "'a fp schedule"
  shows "(isnan (fst a) \<or> isnan (fst b) \<longrightarrow> isnan (fst (MinMaxOps_combine a b))) \<and>
   (isnan (snd a) \<or> isnan (snd b) \<longrightarrow> isnan (snd (MinMaxOps_combine a b))) \<and>
   (isnan (fst acc) \<longrightarrow> isnan (fst (MinMaxOps_reduce acc x i))) \<and>
   (isnan (snd acc) \<longrightarrow> isnan (snd (MinMaxOps_reduce acc x i))) \<and>
   (NaN \<in> set (elements s) \<longrightarrow> min_max_values_kernel limits s = (NaN, NaN))"
proof -
  have "min_max_values_kernel limits s = (NaN, NaN)" if "NaN \<in> set (elements s)"
    using run_schedule_nan [OF that, of limits]
    by (simp add: min_max_values_kernel_def MinMaxOps_project_def isnan_iff prod_eq_iff)
  then show ?thesis
    by (simp add: combine_fst_nan combine_snd_nan MinMaxOps_reduce_def)
qed

theorem minmax_nan_propagates_witness:
  "isnan (fst (MinMaxOps_combine (Num (1::int), Num 1) (NaN, Num 2))) \<and>
   isnan (snd (MinMaxOps_combine (Num (1::int), NaN) (Num 0, Num 2))) \<and>
   isnan (fst (MinMaxOps_reduce (NaN, Num (3::int)) (Num 1) 0)) \<and>
   isnan (snd (MinMaxOps_reduce (Num (3::int), NaN) (Num 1) 0)) \<and>
   NaN \<in> set (elements (Reduce (Reduce (Reduce Identity (Num (5::int))) NaN) (Num 7))) \<and>
   min_max_values_kernel (Num 100, Num (- 100))
     (Reduce (Reduce (Reduce Identity (Num (5::int))) NaN) (Num 7)) = (NaN, NaN)"
  using minmax_nan_propagates [of "(Num (1::int), Num 1)" "(NaN, Num 2)" "(NaN, Num 3)" "Num 1" 0
      "Reduce (Reduce (Reduce Identity (Num 5)) NaN) (Num 7)" "(Num 100, Num (- 100))"]
    minmax_nan_propagates [of "(Num (1::int), NaN)" "(Num 0, Num 2)" "(Num 3, NaN)" "Num 1" 0
      "Reduce (Reduce (Reduce Identity (Num 5)) NaN) (Num 7)" "(Num 100, Num (- 100))"]
  by (simp add: isnan_iff)

text \<open>C7. When the iterator has no element, \<^verbatim>\<open>_all\<close> fills the result with 1, \<^verbatim>\<open>_any\<close>
  fills it with 0, and neither launches a reduction kernel.\<close>

theorem all_any_empty_input:
  "iter_numel iter = 0 \<Longrightarrow>
     all_impl result iter = (replicate (length result) 1, []) \<and>
     any_impl result iter = (replicate (length result) 0, [])"
  by (simp add: all_impl_def any_impl_def fill_def map_replicate_const)

theorem all_any_empty_input_witness:
  "iter_numel ([[]] :: int list list) = 0 \<and>
   all_impl [7] ([[]] :: int list list) = ([1], []) \<and>
   any_impl [7] ([[]] :: int list list) = ([0], [])"
  using all_any_empty_input [of "[[]] :: int list list" "[7]"]
  by (simp add: iter_numel_def)

lemma segment_offsets_stage_error:
  "segment_offsets_stage xs = Inl e \<Longrightarrow> e = IndexError"
  by (simp add: segment_offsets_stage_def Let_def split: if_splits)

lemma kernel_error_cases:
  "embedding_bag_backward_dpcpp_kernel ar wg grad orig sorted_indices cn nw pad sgf mm o2b bs psw
     = Inl e
   \<Longrightarrow> e = IndexError \<or> e = NotImplemented"
  by (auto simp: embedding_bag_backward_dpcpp_kernel_def Let_def
      dest: segment_offsets_stage_error split: sum.splits if_splits prod.splits)

lemma sum_avg_error_cases:
  "embedding_bag_backward_dpcpp_sum_avg ar sort_fn wg grad indices offsets o2b bs nw sgf mode psw
     = Inl e
   \<Longrightarrow> e = IndexError \<or> e = NotImplemented"
  by (auto simp: embedding_bag_backward_dpcpp_sum_avg_def Let_def
      dest: kernel_error_cases split: if_splits)

text \<open>C8 (amended). A mode outside \<open>{SUM, MEAN, MAX}\<close> fails with the unknown-mode check and
  enters neither backward path; what has run before the check is \<^verbatim>\<open>grad_.contiguous()\<close>,
  whose copy kernel is launched exactly when the gradient is not contiguous. \<open>SUM\<close> goes to
  the sum/mean path; \<open>MEAN\<close> goes to the sum/mean path and \<open>MAX\<close> to the max path when no
  per-sample weights are given, and both fail the internal assertion, without entering a
  path, when per-sample weights are given.\<close>

theorem dense_backward_dispatch:
  "(mode \<notin> {MODE_SUM, MODE_MEAN, MODE_MAX} \<longrightarrow>
      embedding_bag_dense_backward_dpcpp ar sort_fn wg grad indices offsets o2b bs mi nw sgf mode psw
        = ((if is_contiguous grad then [] else [Copy_kernel]), Inl (UnknownMode mode))) \<and>
   (mode = MODE_SUM \<or> (mode = MODE_MEAN \<and> psw = None) \<longrightarrow>
      embedding_bag_dense_backward_dpcpp ar sort_fn wg grad indices offsets o2b bs mi nw sgf mode psw
        = ((if is_contiguous grad then [] else [Copy_kernel]) @ [Call_sum_avg],
           embedding_bag_backward_dpcpp_sum_avg ar sort_fn wg (snd (contiguous grad)) indices offsets
             o2b bs nw sgf mode psw)) \<and>
   (mode = MODE_MAX \<and> psw = None \<longrightarrow>
      embedding_bag_dense_backward_dpcpp ar sort_fn wg grad indices offsets o2b bs mi nw sgf mode psw
        = ((if is_contiguous grad then [] else [Copy_kernel]) @ [Call_max],
           embedding_bag_backward_dpcpp_max ar (snd (contiguous grad)) mi nw)) \<and>
   ((mode = MODE_MEAN \<or> mode = MODE_MAX) \<and> psw \<noteq> None \<longrightarrow>
      embedding_bag_dense_backward_dpcpp ar sort_fn wg grad indices offsets o2b bs mi nw sgf mode psw
        = ((if is_contiguous grad then [] else [Copy_kernel]), Inl InternalAssert))"
  by (simp add: embedding_bag_dense_backward_dpcpp_def contiguous_def MODE_SUM_def MODE_MEAN_def
      MODE_MAX_def)

text \<open>The claim as stated fails twice. With a gradient that is not contiguous (here the
  transpose of a 2 x 2 tensor) an unknown mode is reported after the copy kernel of
  \<^verbatim>\<open>contiguous()\<close> has been launched, not before any kernel launch. And not every mode of the
  set is dispatched: \<open>MEAN\<close> with per-sample weights stops at the assertion and does not
  enter the sum/mean path.\<close>

theorem dense_backward_dispatch_counterexample:
  "embedding_bag_dense_backward_dpcpp ieee_arith (sort_key fst) 4
     \<lparr>scalar_type = Float, size0 = 2, size1 = 2, data = [1, 2, 3, 4], stride0 = 1, stride1 = 2\<rparr>
     [0] [0] (Some [0]) [1] [] 1 False 7 None = ([Copy_kernel], Inl (UnknownMode 7)) \<and>
   embedding_bag_dense_backward_dpcpp ieee_arith (sort_key fst) 4
     \<lparr>scalar_type = Float, size0 = 1, size1 = 1, data = [1], stride0 = 1, stride1 = 1\<rparr>
     [0] [0] (Some [0]) [1] [] 1 False MODE_MEAN (Some ([1], 1)) = ([], Inl InternalAssert)"
  by (simp add: embedding_bag_dense_backward_dpcpp_def contiguous_def is_contiguous_def
      MODE_SUM_def MODE_MEAN_def MODE_MAX_def)

theorem dense_backward_dispatch_witness:
  "(7::int) \<notin> {MODE_SUM, MODE_MEAN, MODE_MAX} \<and>
   embedding_bag_dense_backward_dpcpp ieee_arith (sort_key fst) 4
     \<lparr>scalar_type = Float, size0 = 1, size1 = 1, data = [1], stride0 = 1, stride1 = 1\<rparr>
     [0] [0] (Some [0]) [1] [0] 1 False 7 None = ([], Inl (UnknownMode 7)) \<and>
   embedding_bag_dense_backward_dpcpp ieee_arith (sort_key fst) 4
     \<lparr>scalar_type = Float, size0 = 2, size1 = 2, data = [1, 2, 3, 4], stride0 = 1, stride1 = 2\<rparr>
     [0] [0] (Some [0]) [1] [0] 1 False MODE_SUM (Some ([1], 1)) =
   ([Copy_kernel, Call_sum_avg],
    embedding_bag_backward_dpcpp_sum_avg ieee_arith (sort_key fst) 4
      \<lparr>scalar_type = Float, size0 = 2, size1 = 2, data = [1, 3, 2, 4]\<rparr> [0] [0] (Some [0]) [1] 1
      False MODE_SUM (Some ([1], 1))) \<and>
   embedding_bag_dense_backward_dpcpp ieee_arith (sort_key fst) 4
     \<lparr>scalar_type = Float, size0 = 1, size1 = 1, data = [1], stride0 = 1, stride1 = 1\<rparr>
     [0] [0] (Some [0]) [1] [0] 1 False MODE_MAX None =
   ([Call_max],
    embedding_bag_backward_dpcpp_max ieee_arith
      \<lparr>scalar_type = Float, size0 = 1, size1 = 1, data = [1]\<rparr> [0] 1) \<and>
   embedding_bag_dense_backward_dpcpp ieee_arith (sort_key fst) 4
     \<lparr>scalar_type = Float, size0 = 1, size1 = 1, data = [1], stride0 = 1, stride1 = 1\<rparr>
     [0] [0] (Some [0]) [1] [0] 1 False MODE_MAX (Some ([1], 1)) = ([], Inl InternalAssert)"
proof -
  let ?c = "\<lparr>scalar_type = Float, size0 = 1, size1 = 1, data = [1], stride0 = 1, stride1 = 1\<rparr>"
  let ?t = "\<lparr>scalar_type = Float, size0 = 2, size1 = 2, data = [1, 2, 3, 4], stride0 = 1,
             stride1 = 2\<rparr>"
  have c: "is_contiguous ?c" "snd (contiguous ?c) = \<lparr>scalar_type = Float, size0 = 1, size1 = 1, data = [1]\<rparr>"
    by (simp_all add: is_contiguous_def contiguous_def tensor.truncate_def)
  have t: "\<not> is_contiguous ?t"
    "snd (contiguous ?t) = \<lparr>scalar_type = Float, size0 = 2, size1 = 2, data = [1, 3, 2, 4]\<rparr>"
    by (simp_all add: is_contiguous_def contiguous_def upt_rec)
  have m: "(7::int) \<notin> {MODE_SUM, MODE_MEAN, MODE_MAX}"
    "MODE_SUM = MODE_SUM \<or> (MODE_SUM = MODE_MEAN \<and> Some ([1::real], 1::int) = None)"
    "MODE_MAX = MODE_MAX \<and> (None :: (real list \<times> int) option) = None"
    "(MODE_MAX = MODE_MEAN \<or> MODE_MAX = MODE_MAX) \<and> Some ([1::real], 1::int) \<noteq> None"
    by (simp_all add: MODE_SUM_def MODE_MEAN_def MODE_MAX_def)
  note d1 = dense_backward_dispatch [where mode = 7 and psw = "None" and sort_fn = "sort_key fst"
        and ar = ieee_arith and wg = 4 and grad = ?c and indices = "[0]" and offsets = "[0]"
        and ?o2b = "Some [0]" and bs = "[1]" and mi = "[0]" and nw = 1 and sgf = False,
        THEN conjunct1, THEN mp, OF m(1)]
  note d2 = dense_backward_dispatch [where mode = MODE_SUM and psw = "Some ([1], 1)"
        and sort_fn = "sort_key fst" and ar = ieee_arith and wg = 4 and grad = ?t
        and indices = "[0]" and offsets = "[0]" and ?o2b = "Some [0]" and bs = "[1]"
        and mi = "[0]" and nw = 1 and sgf = False,
        THEN conjunct2, THEN conjunct1, THEN mp, OF m(2)]
  note d3 = dense_backward_dispatch [where mode = MODE_MAX and psw = "None"
        and sort_fn = "sort_key fst" and ar = ieee_arith and wg = 4 and grad = ?c
        and indices = "[0]" and offsets = "[0]" and ?o2b = "Some [0]" and bs = "[1]"
        and mi = "[0]" and nw = 1 and sgf = False,
        THEN conjunct2, THEN conjunct2, THEN conjunct1, THEN mp, OF m(3)]
  note d4 = dense_backward_dispatch [where mode = MODE_MAX and psw = "Some ([1], 1)"
        and sort_fn = "sort_key fst" and ar = ieee_arith and wg = 4 and grad = ?c
        and indices = "[0]" and offsets = "[0]" and ?o2b = "Some [0]" and bs = "[1]"
        and mi = "[0]" and nw = 1 and sgf = False,
        THEN conjunct2, THEN conjunct2, THEN conjunct2, THEN mp, OF m(4)]
  from m(1) d1 d2 d3 d4 show ?thesis
    by (simp only: c t if_True if_False append_Nil append_Cons simp_thms)
qed

text \<open>C9. \<^verbatim>\<open>embedding_bag_backward_dpcpp_max\<close> takes float pointers whatever the element
  type of the gradient is: a gradient that is not \<open>Float\<close> fails at the data-pointer check
  (a \<open>Float\<close> one passes), while the forward pass accepts \<open>Float\<close>, \<open>Double\<close>, \<open>Half\<close> and
  \<open>BFloat16\<close> weights.\<close>

theorem max_backward_float_only:
  "(scalar_type grad \<noteq> Float \<longrightarrow>
      embedding_bag_backward_dpcpp_max ar grad max_indices num_weights = Inl DTypeMismatch) \<and>
   (scalar_type grad = Float \<longrightarrow>
      (\<exists>t. embedding_bag_backward_dpcpp_max ar grad max_indices num_weights = Inr t)) \<and>
   (scalar_type weight \<in> {Float, Double, Half, BFloat16} \<longrightarrow>
      (\<exists>r. embedding_bag_dpcpp ar weight indices offsets sgf mode sparse psw = Inr r))"
  by (simp add: embedding_bag_backward_dpcpp_max_def data_ptr_float_def Let_def at_zeros_def
      embedding_bag_dpcpp_def)

theorem max_backward_float_only_witness:
  "embedding_bag_backward_dpcpp_max ieee_arith \<lparr>scalar_type = Double, size0 = 1, size1 = 1, data = [1]\<rparr> [0] 1
     = Inl DTypeMismatch \<and>
   (\<exists>t. embedding_bag_backward_dpcpp_max ieee_arith \<lparr>scalar_type = Float, size0 = 1, size1 = 1, data = [1]\<rparr> [0] 1
     = Inr t) \<and>
   (\<exists>r. embedding_bag_dpcpp ieee_arith \<lparr>scalar_type = Double, size0 = 1, size1 = 1, data = [1]\<rparr> [0] [0] False
          MODE_MAX False None = Inr r) \<and>
   (\<exists>r. embedding_bag_dpcpp ieee_arith \<lparr>scalar_type = Half, size0 = 1, size1 = 1, data = [1]\<rparr> [0] [0] False
          MODE_MAX False None = Inr r) \<and>
   (\<exists>r. embedding_bag_dpcpp ieee_arith \<lparr>scalar_type = BFloat16, size0 = 1, size1 = 1, data = [1]\<rparr> [0] [0] False
          MODE_MAX False None = Inr r)"
  using max_backward_float_only [of "\<lparr>scalar_type = Double, size0 = 1, size1 = 1, data = [1]\<rparr>" ieee_arith "[0]" 1
      "\<lparr>scalar_type = Double, size0 = 1, size1 = 1, data = [1]\<rparr>" "[0]" "[0]" False MODE_MAX False None]
    max_backward_float_only [of "\<lparr>scalar_type = Float, size0 = 1, size1 = 1, data = [1]\<rparr>" ieee_arith "[0]" 1
      "\<lparr>scalar_type = Half, size0 = 1, size1 = 1, data = [1]\<rparr>" "[0]" "[0]" False MODE_MAX False None]
    max_backward_float_only [of "\<lparr>scalar_type = Float, size0 = 1, size1 = 1, data = [1]\<rparr>" ieee_arith "[0]" 1
      "\<lparr>scalar_type = BFloat16, size0 = 1, size1 = 1, data = [1]\<rparr>" "[0]" "[0]" False MODE_MAX False None]
  by simp

section \<open>Verification: segment discovery\<close>

lemma adjacent_difference_length: "length (adjacent_difference f xs) = length xs"
  by (simp add: adjacent_difference_def)

lemma adjacent_difference_nth:
  "0 < i \<Longrightarrow> i < length xs \<Longrightarrow> adjacent_difference f xs ! i = f (xs ! i) (xs ! (i - 1))"
  by (simp add: adjacent_difference_def)

lemma segment_offsets_stage_eq:
  assumes "xs \<noteq> []"
  shows "segment_offsets_stage xs = Inr (map int (seg_starts xs))"
proof -
  let ?d = "(adjacent_difference (\<lambda>lhs rhs. if lhs \<noteq> rhs then 1 else 0) xs)[0 := 1]"
  have len: "length ?d = length xs"
    by (simp add: adjacent_difference_length)
  have d: "?d ! i \<noteq> 0 \<longleftrightarrow> boundary xs i" if "i < length xs" for i
    using that by (cases "i = 0") (simp_all add: boundary_def adjacent_difference_nth len adjacent_difference_length)
  have "transform (\<lambda>d idx. if d \<noteq> 0 then idx else - 1) ?d (iota (length xs) 0)
      = map (\<lambda>i. if boundary xs i then int i else - 1) [0..<length xs]"
    by (rule nth_equalityI) (simp_all add: transform_def iota_def adjacent_difference_length d)
  moreover have "filter (\<lambda>x. x \<noteq> - 1) (map (\<lambda>i. if boundary xs i then int i else - 1) [0..<length xs])
      = map int (filter (boundary xs) [0..<length xs])"
    by (induction "length xs" arbitrary: xs) (simp_all add: filter_map comp_def)
  ultimately show ?thesis
    using assms by (simp add: segment_offsets_stage_def Let_def copy_if_def seg_starts_def)
qed

lemma seg_starts_sorted: "sorted_wrt (<) (seg_starts xs)"
  unfolding seg_starts_def by (rule sorted_wrt_filter) simp

lemma seg_starts_set: "set (seg_starts xs) = {i. i < length xs \<and> boundary xs i}"
  by (auto simp: seg_starts_def)

lemma seg_starts_Cons:
  "xs \<noteq> [] \<Longrightarrow> seg_starts xs = 0 # filter (boundary xs) [1..<length xs]"
  by (simp add: seg_starts_def upt_conv_Cons boundary_def)

lemma strict_nth_mono:
  "sorted_wrt (<) so \<Longrightarrow> a < b \<Longrightarrow> b < length so \<Longrightarrow> so ! a < (so ! b :: nat)"
  by (simp add: sorted_wrt_nth_less)

lemma strict_nth_mono_le:
  "sorted_wrt (<) so \<Longrightarrow> a \<le> b \<Longrightarrow> b < length so \<Longrightarrow> so ! a \<le> (so ! b :: nat)"
  by (cases "a = b") (auto simp: sorted_wrt_nth_less less_imp_le)

lemma strict_nth_less_iff:
  "sorted_wrt (<) so \<Longrightarrow> a < length so \<Longrightarrow> b < length so \<Longrightarrow> so ! a < (so ! b :: nat) \<longleftrightarrow> a < b"
  by (metis linorder_neqE_nat not_less_iff_gr_or_eq strict_nth_mono)

lemma partition_exists:
  assumes "sorted_wrt (<) so" "so \<noteq> []" "so ! 0 = 0" "\<forall>x\<in>set so. x < n" "i < n"
  shows "\<exists>k. k < length so \<and> so ! k \<le> i \<and> i < nend so n k"
proof -
  define k where "k = (GREATEST j. j < length so \<and> so ! j \<le> i)"
  have ex: "0 < length so \<and> so ! 0 \<le> i"
    using assms by simp
  have bnd: "\<forall>j. j < length so \<and> so ! j \<le> i \<longrightarrow> j \<le> length so"
    by simp
  have k: "k < length so \<and> so ! k \<le> i"
    unfolding k_def using GreatestI_nat [of "\<lambda>j. j < length so \<and> so ! j \<le> i" 0 "length so"] ex
    by simp
  have gl: "j \<le> k" if "j < length so \<and> so ! j \<le> i" for j
    unfolding k_def using that
    by (intro Greatest_le_nat [where b = "length so"]) simp_all
  have "i < nend so n k"
  proof (cases "Suc k = length so")
    case True
    then show ?thesis using assms by (simp add: nend_def)
  next
    case False
    with k have lt: "Suc k < length so" by simp
    have "\<not> so ! Suc k \<le> i"
    proof
      assume "so ! Suc k \<le> i"
      with lt have "Suc k \<le> k"
        using gl [of "Suc k"] by simp
      then show False by simp
    qed
    with False show ?thesis by (simp add: nend_def)
  qed
  with k show ?thesis by blast
qed

lemma partition_unique:
  assumes "sorted_wrt (<) so"
    "k < length so" "so ! k \<le> i" "i < nend so n k"
    "k' < length so" "so ! k' \<le> i" "i < nend so n k'"
  shows "k = k'"
proof (rule ccontr)
  assume ne: "k \<noteq> k'"
  have aux: False if "a < b" "a < length so" "b < length so" "so ! b \<le> i" "i < nend so n a" for a b
  proof -
    from that have "Suc a < length so" by simp
    with that have "i < so ! Suc a" by (simp add: nend_def)
    moreover have "so ! Suc a \<le> so ! b"
      using that assms(1) by (intro strict_nth_mono_le) simp_all
    ultimately show False using that by simp
  qed
  from ne consider "k < k'" | "k' < k" by linarith
  then show False
    using aux [of k k'] aux [of k' k] assms by cases simp_all
qed

lemma no_boundary_inside:
  assumes "k < length (seg_starts xs)" "seg_starts xs ! k < j" "j < nend (seg_starts xs) (length xs) k"
  shows "\<not> boundary xs j"
proof
  assume b: "boundary xs j"
  let ?so = "seg_starts xs"
  have jn: "j < length xs"
  proof (cases "Suc k = length ?so")
    case True
    with assms show ?thesis by (simp add: nend_def)
  next
    case False
    with assms have "Suc k < length ?so" "j < ?so ! Suc k" by (simp_all add: nend_def)
    moreover have "?so ! Suc k \<in> set ?so" using calculation by simp
    ultimately show ?thesis by (auto simp: seg_starts_set)
  qed
  with b have "j \<in> set ?so" by (simp add: seg_starts_set)
  then obtain m where m: "m < length ?so" "?so ! m = j" by (auto simp: in_set_conv_nth)
  with assms have km: "k < m"
    using strict_nth_less_iff [OF seg_starts_sorted, of k xs m] by simp
  then have "Suc k < length ?so" using m by simp
  then have "j < ?so ! Suc k" using assms by (simp add: nend_def)
  moreover have "?so ! Suc k \<le> ?so ! m"
    using km m by (intro strict_nth_mono_le [OF seg_starts_sorted]) simp_all
  ultimately show False using m by simp
qed

lemma segment_constant:
  assumes "k < length (seg_starts xs)" "seg_starts xs ! k \<le> j" "j < nend (seg_starts xs) (length xs) k"
  shows "xs ! j = xs ! (seg_starts xs ! k)"
  using assms(2,3)
proof (induction j)
  case 0
  then show ?case by simp
next
  case (Suc j)
  show ?case
  proof (cases "seg_starts xs ! k = Suc j")
    case True
    then show ?thesis by simp
  next
    case False
    with Suc.prems have lt: "seg_starts xs ! k < Suc j" by simp
    then have "\<not> boundary xs (Suc j)"
      using no_boundary_inside [OF assms(1) _ Suc.prems(2)] by simp
    then have "xs ! Suc j = xs ! j" by (simp add: boundary_def)
    moreover have "xs ! j = xs ! (seg_starts xs ! k)"
      using Suc.IH lt Suc.prems by simp
    ultimately show ?thesis by simp
  qed
qed

lemma sdiv_nonneg: "0 \<le> a \<Longrightarrow> 0 \<le> b \<Longrightarrow> a sdiv b = a div (b::int)"
  by (cases "a = 0"; cases "b = 0") (simp_all add: signed_divide_int_def sgn_if)

lemma smod_nonneg: "0 \<le> a \<Longrightarrow> 0 \<le> b \<Longrightarrow> a smod b = a mod (b::int)"
  using sdiv_nonneg [of a b] minus_sdiv_mult_eq_smod [of a b] minus_div_mult_eq_mod [of a b]
  by simp

lemma CeilDiv_nonneg: "0 \<le> a \<Longrightarrow> 0 < b \<Longrightarrow> CeilDiv a b = (a + b - 1) div b"
  by (simp add: CeilDiv_def sdiv_nonneg)

lemma CeilDiv_mult_ge: "0 \<le> a \<Longrightarrow> 0 < b \<Longrightarrow> a \<le> CeilDiv a b * b"
proof -
  assume a: "0 \<le> a" "0 < b"
  have "(a + b - 1) div b * b + (a + b - 1) mod b = a + b - 1" by (rule div_mult_mod_eq)
  moreover have "(a + b - 1) mod b < b" using a by (intro pos_mod_bound)
  ultimately have "a \<le> (a + b - 1) div b * b" by linarith
  then show ?thesis using a by (simp only: CeilDiv_nonneg)
qed

lemma CeilDiv_mult_le: "0 \<le> a \<Longrightarrow> 0 < b \<Longrightarrow> CeilDiv a b * b \<le> a + b - 1"
proof -
  assume a: "0 \<le> a" "0 < b"
  have "(a + b - 1) div b * b + (a + b - 1) mod b = a + b - 1" by (rule div_mult_mod_eq)
  moreover have "0 \<le> (a + b - 1) mod b" using a by (intro pos_mod_sign)
  ultimately have "(a + b - 1) div b * b \<le> a + b - 1" by linarith
  then show ?thesis using a by (simp only: CeilDiv_nonneg)
qed

lemma CeilDiv_ceiling:
  assumes "0 \<le> a" "0 < b"
  shows "CeilDiv a b = \<lceil>real_of_int a / real_of_int b\<rceil>"
proof (rule sym, rule ceiling_unique)
  have "real_of_int (CeilDiv a b * b) \<le> real_of_int (a + b - 1)"
    using CeilDiv_mult_le [OF assms] by (simp only: of_int_le_iff)
  then have "(real_of_int (CeilDiv a b) - 1) * real_of_int b < real_of_int a"
    by (simp add: algebra_simps)
  then show "real_of_int (CeilDiv a b) - 1 < real_of_int a / real_of_int b"
    using assms by (simp only: pos_less_divide_eq of_int_0_less_iff)
  have "real_of_int a \<le> real_of_int (CeilDiv a b * b)"
    using CeilDiv_mult_ge [OF assms] by (simp only: of_int_le_iff)
  then show "real_of_int a / real_of_int b \<le> real_of_int (CeilDiv a b)"
    using assms by (simp add: pos_divide_le_eq)
qed

lemma CeilDiv_nat: "0 < b \<Longrightarrow> CeilDiv (int a) (int b) = int ((a + b - 1) div b)"
  by (simp add: CeilDiv_nonneg zdiv_int)

lemma store_length [simp]: "length (store buf s) = length buf"
  by (simp add: store_def)

lemma scatter_length [simp]: "length (scatter buf ss) = length buf"
  unfolding scatter_def by (induction ss arbitrary: buf) simp_all

lemma scatter_Nil [simp]: "scatter buf [] = buf"
  by (simp add: scatter_def)

lemma scatter_Cons [simp]: "scatter buf (s # ss) = scatter (store buf s) ss"
  by (simp add: scatter_def)

lemma scatter_append: "scatter buf (ss @ ts) = scatter (scatter buf ss) ts"
  by (simp add: scatter_def)

lemma scatter_nth_other:
  "\<forall>s\<in>set ss. fst s \<noteq> int i \<Longrightarrow> scatter buf ss ! i = buf ! i"
proof (induction ss arbitrary: buf)
  case Nil
  then show ?case by simp
next
  case (Cons s ss)
  then have "scatter (store buf s) ss ! i = store buf s ! i" by simp
  moreover have "store buf s ! i = buf ! i"
    using Cons.prems by (auto simp: store_def nth_list_update)
  ultimately show ?case by simp
qed

lemma scatter_nth_distinct:
  "distinct (map fst ss) \<Longrightarrow> (int i, v) \<in> set ss \<Longrightarrow> i < length buf \<Longrightarrow> scatter buf ss ! i = v"
proof (induction ss arbitrary: buf)
  case Nil
  then show ?case by simp
next
  case (Cons s ss)
  show ?case
  proof (cases "fst s = int i")
    case True
    with Cons.prems have "s = (int i, v)"
      by (cases s) (auto simp: image_iff)
    moreover have "\<forall>t\<in>set ss. fst t \<noteq> int i"
      using Cons.prems True by (auto simp: image_iff)
    ultimately show ?thesis
      using Cons.prems by (simp add: scatter_nth_other store_def)
  next
    case False
    with Cons.prems have "(int i, v) \<in> set ss" by auto
    then show ?thesis using Cons by simp
  qed
qed

lemma parallel_for_guard:
  assumes "\<And>gid. int n \<le> gid \<Longrightarrow> kfn gid = []" "int n \<le> tot"
  shows "parallel_for tot kfn = concat (map (\<lambda>k. kfn (int k)) [0..<n])"
proof -
  have "[0..<nat tot] = [0..<n] @ [n..<nat tot]"
    using assms(2) by (metis le_add_diff_inverse nat_int nat_mono upt_add_eq_append zero_le)
  moreover have "concat (map kfn (map int [n..<nat tot])) = []"
    using assms(1) by simp
  ultimately show ?thesis
    by (simp add: parallel_for_def comp_def)
qed


lemma segment_end_map_int:
  "k < length so \<Longrightarrow> segment_end (map int so) (int n) (int k) = int (nend so n k)"
  by (auto simp: segment_end_def nend_def nat_add_distrib)

lemma seg_starts_lt: "x \<in> set (seg_starts xs) \<Longrightarrow> x < length xs"
  by (simp add: seg_starts_set)

lemma seg_starts_nend_gt:
  assumes "k < length (seg_starts xs)"
  shows "seg_starts xs ! k < nend (seg_starts xs) (length xs) k"
proof (cases "Suc k = length (seg_starts xs)")
  case True
  then show ?thesis using assms seg_starts_lt [of "seg_starts xs ! k" xs] by (simp add: nend_def)
next
  case False
  then show ?thesis using assms strict_nth_mono [OF seg_starts_sorted, of k "Suc k" xs]
    by (simp add: nend_def)
qed

lemma seg_starts_nend_le:
  assumes "k < length (seg_starts xs)"
  shows "nend (seg_starts xs) (length xs) k \<le> length xs"
proof (cases "Suc k = length (seg_starts xs)")
  case True
  then show ?thesis by (simp add: nend_def)
next
  case False
  then show ?thesis using assms seg_starts_lt [of "seg_starts xs ! Suc k" xs]
    by (simp add: nend_def less_imp_le)
qed

lemma seg_starts_values_distinct:
  assumes "sorted xs"
  shows "distinct (map (\<lambda>s. xs ! s) (seg_starts xs))"
proof -
  let ?so = "seg_starts xs"
  have "xs ! (?so ! a) < xs ! (?so ! b)" if "a < b" "b < length ?so" for a b
  proof -
    have lt: "?so ! a < ?so ! b" using that by (intro strict_nth_mono [OF seg_starts_sorted])
    have bn: "?so ! b < length xs" using that by (intro seg_starts_lt) simp
    have "boundary xs (?so ! b)"
      using that seg_starts_set [of xs] nth_mem [of b ?so] by auto
    with lt have "xs ! (?so ! b) \<noteq> xs ! (?so ! b - 1)" by (simp add: boundary_def)
    moreover have "xs ! (?so ! b - 1) \<le> xs ! (?so ! b)"
      using assms bn by (intro sorted_nth_mono) simp_all
    moreover have "xs ! (?so ! a) \<le> xs ! (?so ! b - 1)"
      using assms bn lt by (intro sorted_nth_mono) simp_all
    ultimately show ?thesis by simp
  qed
  then have "sorted_wrt (<) (map (\<lambda>s. xs ! s) ?so)"
    by (simp add: sorted_wrt_iff_nth_less)
  then show ?thesis
    using strict_sorted_iff by blast
qed

text \<open>C2 (amended). For every non-empty index stream of length \<open>N\<close> the segment-discovery
  stage returns segment offsets that start at 0 and increase strictly; every position of
  \<open>[0, N)\<close> lies in exactly one segment range, every range is non-empty, lies in \<open>[0, N)\<close>
  and holds one value only; when the stream is sorted, different segments hold different
  values.\<close>

theorem segment_offsets_partition:
  assumes "sorted_indices \<noteq> []"
  shows "\<exists>offs. segment_offsets_stage sorted_indices = Inr offs \<and> offs \<noteq> [] \<and> offs ! 0 = 0 \<and>
     sorted_wrt (<) offs \<and>
     (\<forall>i. 0 \<le> i \<and> i < int (length sorted_indices) \<longrightarrow>
        (\<exists>!k. k < length offs \<and> offs ! k \<le> i \<and>
              i < segment_end offs (int (length sorted_indices)) (int k))) \<and>
     (\<forall>k<length offs.
        0 \<le> offs ! k \<and> offs ! k < segment_end offs (int (length sorted_indices)) (int k) \<and>
        segment_end offs (int (length sorted_indices)) (int k) \<le> int (length sorted_indices) \<and>
        (\<forall>i. offs ! k \<le> i \<and> i < segment_end offs (int (length sorted_indices)) (int k) \<longrightarrow>
           sorted_indices ! nat i = sorted_indices ! nat (offs ! k))) \<and>
     (sorted sorted_indices \<longrightarrow> distinct (map (\<lambda>s. sorted_indices ! nat s) offs))"
proof -
  let ?xs = sorted_indices
  let ?so = "seg_starts ?xs"
  let ?n = "length ?xs"
  have ne: "?so \<noteq> []" and z: "?so ! 0 = 0"
    using assms by (simp_all add: seg_starts_Cons)
  have part: "\<exists>!k. k < length (map int ?so) \<and> map int ?so ! k \<le> i \<and>
                 i < segment_end (map int ?so) (int ?n) (int k)"
    if "0 \<le> i \<and> i < int ?n" for i
  proof -
    from that have i: "nat i < ?n" "0 \<le> i" by auto
    obtain k where k: "k < length ?so" "?so ! k \<le> nat i" "nat i < nend ?so ?n k"
      using partition_exists [OF seg_starts_sorted ne z _ i(1)] seg_starts_lt by blast
    from k i have ki: "int (?so ! k) \<le> i" "i < int (nend ?so ?n k)" by linarith+
    show ?thesis
    proof (rule ex1I [of _ k])
      show "k < length (map int ?so) \<and> map int ?so ! k \<le> i \<and>
            i < segment_end (map int ?so) (int ?n) (int k)"
        using k ki by (simp add: segment_end_map_int)
    next
      fix k'
      assume "k' < length (map int ?so) \<and> map int ?so ! k' \<le> i \<and>
              i < segment_end (map int ?so) (int ?n) (int k')"
      then have "k' < length ?so \<and> int (?so ! k') \<le> i \<and> i < int (nend ?so ?n k')"
        by (auto simp: segment_end_map_int)
      then have "k' < length ?so" "?so ! k' \<le> nat i" "nat i < nend ?so ?n k'"
        using i by linarith+
      then show "k' = k"
        using partition_unique [OF seg_starts_sorted _ _ _ k] by blast
    qed
  qed
  have seg: "0 \<le> map int ?so ! k \<and>
        map int ?so ! k < segment_end (map int ?so) (int ?n) (int k) \<and>
        segment_end (map int ?so) (int ?n) (int k) \<le> int ?n \<and>
        (\<forall>i. map int ?so ! k \<le> i \<and> i < segment_end (map int ?so) (int ?n) (int k) \<longrightarrow>
           ?xs ! nat i = ?xs ! nat (map int ?so ! k))"
    if "k < length (map int ?so)" for k
  proof -
    from that have k: "k < length ?so" by simp
    have "?xs ! nat i = ?xs ! (?so ! k)"
      if "int (?so ! k) \<le> i" "i < int (nend ?so ?n k)" for i
      using that by (intro segment_constant [OF k]) simp_all
    then show ?thesis
      using k seg_starts_nend_gt [OF k] seg_starts_nend_le [OF k]
      by (simp add: segment_end_map_int)
  qed
  have "sorted_wrt (<) (map int ?so)"
    using seg_starts_sorted [of ?xs] by (simp add: sorted_wrt_map)
  moreover have "distinct (map (\<lambda>s. ?xs ! nat s) (map int ?so))" if "sorted ?xs"
    using seg_starts_values_distinct [OF that] by (simp add: comp_def)
  ultimately show ?thesis
    using segment_offsets_stage_eq [OF assms] ne z part seg
    by (intro exI [of _ "map int ?so"]) (simp add: nth_map)
qed

text \<open>On the empty stream the stage fails when it forces position 0 of the mask
  (\<^verbatim>\<open>dummy[0] = 1\<close> on a tensor without elements): it produces no offsets. The caller
  returns early on an empty stream and never runs the stage there.\<close>

theorem segment_offsets_partition_counterexample:
  "segment_offsets_stage [] = Inl IndexError \<and> \<not> (\<exists>offs. segment_offsets_stage [] = Inr offs)"
  by (simp add: segment_offsets_stage_def)

theorem segment_offsets_partition_witness:
  "[2, 5, 5, 5, 7, 7, 8, 9, 9] \<noteq> ([] :: int list) \<and>
   segment_offsets_stage [2, 5, 5, 5, 7, 7, 8, 9, 9] = Inr [0, 1, 4, 6, 7] \<and>
   (\<exists>offs. segment_offsets_stage [2, 5, 5, 5, 7, 7, 8, 9, 9] = Inr offs \<and> offs \<noteq> [] \<and>
      offs ! 0 = 0 \<and> sorted_wrt (<) offs)"
proof -
  have "segment_offsets_stage [2, 5, 5, 5, 7, 7, 8, 9, 9] = Inr [0, 1, 4, 6, 7]"
    by (simp add: segment_offsets_stage_def adjacent_difference_def iota_def transform_def
        copy_if_def upt_rec [of 0] upt_rec [of 1] upt_rec [of 2] upt_rec [of 3] upt_rec [of 4]
        upt_rec [of 5] upt_rec [of 6] upt_rec [of 7] upt_rec [of 8] upt_rec [of 9])
  moreover have "\<exists>offs. segment_offsets_stage [2, 5, 5, 5, 7, 7, 8, 9, 9] = Inr offs \<and> offs \<noteq> [] \<and>
      offs ! 0 = 0 \<and> sorted_wrt (<) offs"
    using segment_offsets_partition [of "[2, 5, 5, 5, 7, 7, 8, 9, 9]"] by blast
  ultimately show ?thesis by blast
qed

section \<open>Verification: partial-segment splitting\<close>

lemma valid_nend_gt:
  assumes "valid_starts so n" "k < length so"
  shows "so ! k < nend so n k"
proof (cases "Suc k = length so")
  case True
  then show ?thesis using assms by (simp add: nend_def valid_starts_def)
next
  case False
  then show ?thesis using assms strict_nth_mono [of so k "Suc k"]
    by (simp add: nend_def valid_starts_def)
qed

lemma valid_nend_le:
  assumes "valid_starts so n" "k < length so"
  shows "nend so n k \<le> n"
proof (cases "Suc k = length so")
  case True
  then show ?thesis by (simp add: nend_def)
next
  case False
  then have "so ! Suc k \<in> set so" using assms by simp
  then show ?thesis using assms False by (auto simp: nend_def valid_starts_def less_imp_le)
qed

lemma seg_len_pos: "valid_starts so n \<Longrightarrow> k < length so \<Longrightarrow> 0 < seg_len so n k"
  using valid_nend_gt [of so n k] by (simp add: seg_len_def)

lemma cnt_pos: "valid_starts so n \<Longrightarrow> k < length so \<Longrightarrow> 0 < cnt so n k"
  using seg_len_pos [of so n k] by (simp add: cnt_def)

lemma pstart_Suc [simp]: "pstart so n (Suc k) = pstart so n k + cnt so n k"
  by (simp add: pstart_def)

lemma pstart_0 [simp]: "pstart so n 0 = 0"
  by (simp add: pstart_def)

lemma pstart_mono: "a \<le> b \<Longrightarrow> pstart so n a \<le> pstart so n b"
  by (induction b) (auto simp: le_Suc_eq)

lemma CeilDiv_32_ge: "0 \<le> m \<Longrightarrow> m \<le> CeilDiv m 32 * 32"
  using CeilDiv_mult_ge [of m 32] by simp

lemma scatter_identity_stores:
  assumes "length ret = m"
  shows "scatter ret (map (\<lambda>k. (int k, v k)) [0..<m]) = map v [0..<m]"
proof (rule nth_equalityI)
  show "length (scatter ret (map (\<lambda>k. (int k, v k)) [0..<m])) = length (map v [0..<m])"
    using assms by simp
next
  fix i
  assume "i < length (scatter ret (map (\<lambda>k. (int k, v k)) [0..<m]))"
  then have i: "i < m" using assms by simp
  have "distinct (map fst (map (\<lambda>k. (int k, v k)) [0..<m]))"
    by (simp add: comp_def distinct_map inj_on_def)
  moreover have "(int i, v i) \<in> set (map (\<lambda>k. (int k, v k)) [0..<m])"
    using i by auto
  ultimately have "scatter ret (map (\<lambda>k. (int k, v k)) [0..<m]) ! i = v i"
    using i assms by (intro scatter_nth_distinct) simp_all
  then show "scatter ret (map (\<lambda>k. (int k, v k)) [0..<m]) ! i = map v [0..<m] ! i"
    using i by simp
qed

lemma concat_singletons:
  "(\<And>x. x \<in> set xs \<Longrightarrow> f x = [g x]) \<Longrightarrow> concat (map f xs) = map g xs"
  by (induction xs) simp_all

lemma krn_partials_per_segment_eq:
  assumes "valid_starts so n" "length ret = length so"
  shows "krn_partials_per_segment ret (map int so) (int (length so)) (int n)
       = map (\<lambda>k. int (cnt so n k)) [0..<length so]"
proof -
  let ?m = "length so"
  let ?kfn = "krn_partials_per_segment_kfn (map int so) (int ?m) (int n)"
  have kfn: "?kfn (int k) = [(int k, int (cnt so n k))]" if "k < ?m" for k
  proof -
    have "segment_end (map int so) (int n) (int k) - int (so ! k) = int (seg_len so n k)"
      using that valid_nend_gt [OF assms(1) that]
      by (simp add: segment_end_map_int seg_len_def)
    then have "CeilDiv (segment_end (map int so) (int n) (int k) - int (so ! k)) NROWS_PER_THREAD
        = int (cnt so n k)"
      using CeilDiv_nat [of 10 "seg_len so n k"] by (simp add: NROWS_PER_THREAD_def cnt_def)
    then show ?thesis
      using that by (simp add: krn_partials_per_segment_kfn_def segment_end_def Let_def)
  qed
  have "parallel_for (CeilDiv (int ?m) 32 * 32) ?kfn = concat (map (\<lambda>k. ?kfn (int k)) [0..<?m])"
    by (rule parallel_for_guard) (simp_all add: krn_partials_per_segment_kfn_def CeilDiv_32_ge)
  also have "\<dots> = map (\<lambda>k. (int k, int (cnt so n k))) [0..<?m]"
    using kfn by (intro concat_singletons) simp
  finally show ?thesis
    using assms by (simp add: krn_partials_per_segment_def scatter_identity_stores)
qed

lemma exclusive_scan_length [simp]: "length (exclusive_scan xs i) = length xs"
  by (induction xs arbitrary: i) simp_all

lemma exclusive_scan_nth:
  "k < length xs \<Longrightarrow> exclusive_scan xs i ! k = i + sum_list (take k xs)"
proof (induction xs arbitrary: i k)
  case Nil
  then show ?case by simp
next
  case (Cons x xs)
  then show ?case by (cases k) simp_all
qed

lemma int_sum_list: "int (sum_list (map f xs)) = sum_list (map (\<lambda>x. int (f x)) xs)"
  by (induction xs) simp_all

lemma exclusive_scan_cnt:
  "exclusive_scan (map (\<lambda>k. int (cnt so n k)) [0..<m]) 0 = map (\<lambda>k. int (pstart so n k)) [0..<m]"
proof (rule nth_equalityI)
  show "length (exclusive_scan (map (\<lambda>k. int (cnt so n k)) [0..<m]) 0)
      = length (map (\<lambda>k. int (pstart so n k)) [0..<m])"
    by simp
next
  fix i
  assume "i < length (exclusive_scan (map (\<lambda>k. int (cnt so n k)) [0..<m]) 0)"
  then have i: "i < m" by simp
  then have "take i (map (\<lambda>k. int (cnt so n k)) [0..<m]) = map (\<lambda>k. int (cnt so n k)) [0..<i]"
    by (simp add: take_map)
  then show "exclusive_scan (map (\<lambda>k. int (cnt so n k)) [0..<m]) 0 ! i
      = map (\<lambda>k. int (pstart so n k)) [0..<m] ! i"
    using i by (simp add: exclusive_scan_nth pstart_def int_sum_list del: upt_Suc)
qed

lemma offset_stores_fst:
  "map fst (concat (map (offset_stores so n) [0..<m])) = map int [0..<pstart so n m]"
proof (induction m)
  case 0
  then show ?case by simp
next
  case (Suc m)
  have one: "map fst (offset_stores so n m) = map int [pstart so n m..<pstart so n m + cnt so n m]"
    by (rule nth_equalityI) (simp_all add: offset_stores_def)
  have "map fst (concat (map (offset_stores so n) [0..<Suc m]))
      = map fst (concat (map (offset_stores so n) [0..<m])) @ map fst (offset_stores so n m)"
    by simp
  also have "\<dots> = map int ([0..<pstart so n m] @ [pstart so n m..<pstart so n m + cnt so n m])"
    by (simp only: Suc.IH one map_append)
  also have "[0..<pstart so n m] @ [pstart so n m..<pstart so n m + cnt so n m]
      = [0..<pstart so n m + cnt so n m]"
    by (rule upt_add_eq_append [symmetric]) simp
  finally show ?case by (simp only: pstart_Suc)
qed

lemma krn_partial_segment_offset_stores:
  assumes "valid_starts so n"
  shows "parallel_for (CeilDiv (int (length so)) 32 * 32)
           (krn_partial_segment_offset_kfn (map (\<lambda>k. int (cnt so n k)) [0..<length so])
              (map (\<lambda>k. int (pstart so n k)) [0..<length so]) (map int so) (int (length so)))
       = concat (map (offset_stores so n) [0..<length so])"
proof -
  let ?m = "length so"
  let ?kfn = "krn_partial_segment_offset_kfn (map (\<lambda>k. int (cnt so n k)) [0..<?m])
              (map (\<lambda>k. int (pstart so n k)) [0..<?m]) (map int so) (int ?m)"
  have "parallel_for (CeilDiv (int ?m) 32 * 32) ?kfn = concat (map (\<lambda>k. ?kfn (int k)) [0..<?m])"
    by (rule parallel_for_guard) (simp_all add: krn_partial_segment_offset_kfn_def CeilDiv_32_ge)
  moreover have "?kfn (int k) = offset_stores so n k" if "k < ?m" for k
    using that
    by (simp add: krn_partial_segment_offset_kfn_def offset_stores_def NROWS_PER_THREAD_def
        comp_def Let_def)
  then have "map (\<lambda>k. ?kfn (int k)) [0..<?m] = map (offset_stores so n) [0..<?m]"
    by (intro map_cong) simp_all
  ultimately show ?thesis
    by simp
qed

lemma krn_partial_segment_offset_nth:
  assumes "valid_starts so n" "length ret = pstart so n (length so)" "k < length so" "j < cnt so n k"
  shows "krn_partial_segment_offset ret (map (\<lambda>k. int (cnt so n k)) [0..<length so])
           (map (\<lambda>k. int (pstart so n k)) [0..<length so]) (map int so) (int (length so))
         ! (pstart so n k + j) = int (so ! k + 10 * j)"
proof -
  let ?st = "concat (map (offset_stores so n) [0..<length so])"
  have "distinct (map fst ?st)"
    by (simp add: offset_stores_fst distinct_map inj_on_def)
  moreover have "(int (pstart so n k + j), int (so ! k + 10 * j)) \<in> set ?st"
    using assms(3,4) by (auto simp: offset_stores_def intro!: bexI [of _ k])
  moreover have "pstart so n k + j < length ret"
  proof -
    have "pstart so n k + j < pstart so n (Suc k)" using assms(4) by simp
    also have "\<dots> \<le> pstart so n (length so)" using assms(3) by (intro pstart_mono) simp
    finally show ?thesis using assms(2) by simp
  qed
  ultimately have "scatter ret ?st ! (pstart so n k + j) = int (so ! k + 10 * j)"
    by (rule scatter_nth_distinct)
  then show ?thesis
    using krn_partial_segment_offset_stores [OF assms(1)]
    by (simp add: krn_partial_segment_offset_def)
qed

lemma pstart_decompose:
  "p < pstart so n m \<Longrightarrow> \<exists>k j. k < m \<and> j < cnt so n k \<and> p = pstart so n k + j"
proof (induction m)
  case 0
  then show ?case by simp
next
  case (Suc m)
  show ?case
  proof (cases "p < pstart so n m")
    case True
    with Suc.IH obtain k j where "k < m" "j < cnt so n k" "p = pstart so n k + j" by blast
    then show ?thesis by (intro exI [of _ k] exI [of _ j]) simp
  next
    case False
    with Suc.prems have "p - pstart so n m < cnt so n m" "p = pstart so n m + (p - pstart so n m)"
      by simp_all
    then show ?thesis by (intro exI [of _ m] exI [of _ "p - pstart so n m"]) simp
  qed
qed

lemma partial_segments_stage_eq:
  assumes "valid_starts so n"
  shows "partial_segments_stage (map int so) (int (length so)) (int n) =
     (map (\<lambda>k. int (cnt so n k)) [0..<length so],
      map (\<lambda>k. int (pstart so n k)) [0..<length so],
      int (pstart so n (length so)),
      krn_partial_segment_offset (at_empty (pstart so n (length so)))
        (map (\<lambda>k. int (cnt so n k)) [0..<length so])
        (map (\<lambda>k. int (pstart so n k)) [0..<length so]) (map int so) (int (length so)))"
proof -
  let ?m = "length so"
  have m: "0 < ?m" using assms by (simp add: valid_starts_def)
  then have m1: "nat (int ?m - 1) = ?m - 1" and m2: "?m - 1 < ?m" by simp_all
  have m3: "Suc (?m - 1) = ?m" using m by simp
  have pps: "krn_partials_per_segment (at_empty ?m) (map int so) (int ?m) (int n)
      = map (\<lambda>k. int (cnt so n k)) [0..<?m]"
    using assms by (intro krn_partials_per_segment_eq) (simp_all add: at_empty_def)
  have "pstart so n (Suc (?m - 1)) = pstart so n (?m - 1) + cnt so n (?m - 1)"
    by (rule pstart_Suc)
  then have tot: "int (cnt so n (?m - 1)) + int (pstart so n (?m - 1)) = int (pstart so n ?m)"
    unfolding m3 by simp
  have "map (\<lambda>k. int (cnt so n k)) [0..<?m] ! (?m - 1) = int (cnt so n (?m - 1))"
       "map (\<lambda>k. int (pstart so n k)) [0..<?m] ! (?m - 1) = int (pstart so n (?m - 1))"
    using m2 by (simp_all del: upt_Suc)
  then have "map (\<lambda>k. int (cnt so n k)) [0..<?m] ! nat (int ?m - 1) +
        map (\<lambda>k. int (pstart so n k)) [0..<?m] ! nat (int ?m - 1) = int (pstart so n ?m)"
    using tot by (simp only: m1)
  then show ?thesis
    unfolding partial_segments_stage_def Let_def
    by (simp only: nat_int pps exclusive_scan_cnt)
qed

lemma cnt_bounds:
  "seg_len so n k \<le> 10 * cnt so n k \<and> (0 < seg_len so n k \<longrightarrow> 10 * cnt so n k < seg_len so n k + 10)"
  unfolding cnt_def by presburger

lemma pend_facts:
  assumes "valid_starts so n" "k < length so" "j < cnt so n k"
  shows "so ! k + 10 * j < pend so n k j"
    and "pend so n k j \<le> so ! k + 10 * j + 10"
    and "pend so n k j = min (so ! k + 10 * (j + 1)) (nend so n k)"
proof -
  have len: "nend so n k = so ! k + seg_len so n k" "0 < seg_len so n k"
    using valid_nend_gt [OF assms(1,2)] by (simp_all add: seg_len_def)
  note b = cnt_bounds [of so n k]
  show "so ! k + 10 * j < pend so n k j"
    using len b assms(3) by (auto simp: pend_def)
  show "pend so n k j \<le> so ! k + 10 * j + 10"
    using len b assms(3) by (auto simp: pend_def)
  show "pend so n k j = min (so ! k + 10 * (j + 1)) (nend so n k)"
    using len b assms(3) by (auto simp: pend_def min_def)
qed

lemma pso_of_length [simp]: "length (pso_of so n) = pstart so n (length so)"
  by (simp add: pso_of_def krn_partial_segment_offset_def at_empty_def)

lemma pso_of_nth:
  "valid_starts so n \<Longrightarrow> k < length so \<Longrightarrow> j < cnt so n k \<Longrightarrow>
     pso_of so n ! (pstart so n k + j) = int (so ! k + 10 * j)"
  unfolding pso_of_def by (rule krn_partial_segment_offset_nth) (simp_all add: at_empty_def)

lemma pstart_flat_less:
  assumes "k < length so" "j < cnt so n k"
  shows "pstart so n k + j < pstart so n (length so)"
proof -
  have "pstart so n k + j < pstart so n (Suc k)" using assms(2) by simp
  also have "\<dots> \<le> pstart so n (length so)" using assms(1) by (intro pstart_mono) simp
  finally show ?thesis .
qed

lemma pso_of_end:
  assumes "valid_starts so n" "k < length so" "j < cnt so n k"
  shows "segment_end (pso_of so n) (int n) (int (pstart so n k + j)) = int (pend so n k j)"
proof (cases "Suc j < cnt so n k")
  case True
  have "pstart so n k + Suc j < pstart so n (length so)"
    using assms(2) True by (rule pstart_flat_less)
  then have "int (pstart so n k + j) \<noteq> int (length (pso_of so n)) - 1" by simp
  moreover have "pso_of so n ! (pstart so n k + Suc j) = int (so ! k + 10 * Suc j)"
    using assms(1,2) True by (rule pso_of_nth)
  ultimately show ?thesis
    using True by (simp add: segment_end_def pend_def nat_add_distrib)
next
  case False
  with assms have j: "Suc j = cnt so n k" by simp
  then have flat: "Suc (pstart so n k + j) = pstart so n (Suc k)" by simp
  show ?thesis
  proof (cases "Suc k = length so")
    case True
    then have "int (pstart so n k + j) = int (length (pso_of so n)) - 1"
      using flat by simp
    then show ?thesis
      using False True by (simp add: segment_end_def pend_def nend_def)
  next
    case False
    with assms have k: "Suc k < length so" by simp
    have c: "0 < cnt so n (Suc k)" using assms(1) k by (rule cnt_pos)
    have "pstart so n (Suc k) + 0 < pstart so n (length so)"
      using k c by (rule pstart_flat_less)
    then have ne: "int (pstart so n k + j) \<noteq> int (length (pso_of so n)) - 1"
      using flat by simp
    have "pso_of so n ! (pstart so n (Suc k) + 0) = int (so ! Suc k + 10 * 0)"
      using assms(1) k c by (rule pso_of_nth)
    moreover have "nat (int (pstart so n k + j) + 1) = pstart so n (Suc k) + 0"
      using flat by (simp add: nat_add_distrib)
    ultimately have "pso_of so n ! nat (int (pstart so n k + j) + 1) = int (so ! Suc k)"
      by (simp only: add_0_right mult_0_right)
    then show ?thesis
      using ne \<open>\<not> Suc j < cnt so n k\<close> False
      by (simp add: segment_end_def pend_def nend_def)
  qed
qed

lemma partial_cover:
  assumes "valid_starts so n" "k < length so" "so ! k \<le> i" "i < nend so n k"
  shows "\<exists>!j. j < cnt so n k \<and> so ! k + 10 * j \<le> i \<and> i < pend so n k j"
proof (rule ex1I [of _ "(i - so ! k) div 10"])
  define d where "d = i - so ! k"
  have i: "i = so ! k + d" using assms(3) by (simp add: d_def)
  have len: "nend so n k = so ! k + seg_len so n k"
    using valid_nend_gt [OF assms(1,2)] by (simp add: seg_len_def)
  have dl: "d < seg_len so n k" using assms(4) len i by simp
  have "(d + 10) div 10 \<le> (seg_len so n k + 9) div 10"
    using dl by (intro div_le_mono) simp
  then have jc: "d div 10 < cnt so n k"
    by (simp add: cnt_def)
  have lo: "10 * (d div 10) \<le> d" by (rule times_div_less_eq_dividend)
  have hi: "d < 10 + 10 * (d div 10)" by (rule dividend_less_times_div) simp
  have "i < pend so n k (d div 10)"
    using pend_facts(3) [OF assms(1,2) jc] assms(4) hi i by (simp add: min_def)
  moreover have "so ! k + 10 * (d div 10) \<le> i"
    using lo i by simp
  ultimately have "d div 10 < cnt so n k \<and> so ! k + 10 * (d div 10) \<le> i \<and>
      i < pend so n k (d div 10)"
    using jc by simp
  then show "(i - so ! k) div 10 < cnt so n k \<and> so ! k + 10 * ((i - so ! k) div 10) \<le> i \<and>
      i < pend so n k ((i - so ! k) div 10)"
    unfolding d_def .
next
  fix j
  assume a: "j < cnt so n k \<and> so ! k + 10 * j \<le> i \<and> i < pend so n k j"
  then have "i < so ! k + 10 * j + 10"
    using pend_facts(2) [OF assms(1,2), of j] by simp
  with a have "10 * j \<le> i - so ! k" "i - so ! k < 10 * j + 10" by linarith+
  then have "(i - so ! k) div 10 = j" by (intro div_nat_eqI) simp_all
  then show "j = (i - so ! k) div 10" by simp
qed

lemma int_starts:
  assumes "offs \<noteq> []" "sorted_wrt (<) offs" "\<forall>x\<in>set offs. 0 \<le> x \<and> x < numel"
  obtains so n where "offs = map int so" "numel = int n" "valid_starts so n"
proof -
  have 1: "offs = map int (map nat offs)"
    using assms(3) by (simp add: map_idI)
  obtain x where "x \<in> set offs" using assms(1) by (cases offs) auto
  with assms(3) have 2: "numel = int (nat numel)" by auto
  have "sorted_wrt (<) (map nat offs)"
    using assms(2,3) by (simp add: sorted_wrt_map) (rule sorted_wrt_mono_rel, auto)
  moreover have "\<forall>x\<in>set (map nat offs). x < nat numel"
    using assms(3) by auto
  ultimately have "valid_starts (map nat offs) (nat numel)"
    using assms(1) by (simp add: valid_starts_def)
  with 1 2 show ?thesis using that by blast
qed

lemma partial_segments_stage_pso:
  "valid_starts so n \<Longrightarrow>
   partial_segments_stage (map int so) (int (length so)) (int n) =
     (map (\<lambda>k. int (cnt so n k)) [0..<length so], map (\<lambda>k. int (pstart so n k)) [0..<length so],
      int (pstart so n (length so)), pso_of so n)"
  by (simp add: partial_segments_stage_eq pso_of_def)

lemma pps_take_sum:
  "k < m \<Longrightarrow> sum_list (take k (map (\<lambda>k. int (cnt so n k)) [0..<m])) = int (pstart so n k)"
  by (simp add: take_map pstart_def int_sum_list del: upt_Suc)

lemma ppso_end:
  assumes "k < length so"
  shows "segment_end (map (\<lambda>k. int (pstart so n k)) [0..<length so]) (int (pstart so n (length so))) (int k)
       = int (pstart so n k) + int (cnt so n k)"
proof (cases "Suc k = length so")
  case True
  then have "int k = int (length so) - 1" by simp
  moreover have "pstart so n (length so) = pstart so n k + cnt so n k"
    using True pstart_Suc [of so n k] by simp
  ultimately show ?thesis by (simp add: segment_end_def)
next
  case False
  with assms have "Suc k < length so" by simp
  then show ?thesis using False by (simp add: segment_end_def nat_add_distrib del: upt_Suc)
qed

text \<open>C3. Given segment offsets that increase strictly inside \<open>[0, numel)\<close>, the splitting
  stage gives every segment \<open>ceil(length / 10)\<close> partial segments; the run of segment \<open>k\<close>
  in the flattened array starts at the sum of the counts before it and is followed at once
  by the next run; its \<open>j\<close>-th entry is \<open>segment_offset + j * 10\<close>, and the partial segment
  that starts there ends at the next multiple or at the end of the segment, whichever
  comes first, so it has between 1 and 10 positions; every position of the segment lies
  in exactly one of its partial segments.\<close>

theorem partial_segment_splitting:
  assumes "offs \<noteq> []" "sorted_wrt (<) offs" "\<forall>x\<in>set offs. 0 \<le> x \<and> x < numel"
    and "partial_segments_stage offs (int (length offs)) numel = (pps, ppso, npart, pso)"
  shows "length pps = length offs \<and> length ppso = length offs \<and> int (length pso) = npart \<and>
    (\<forall>k<length offs.
       pps ! k = \<lceil>real_of_int (segment_end offs numel (int k) - offs ! k) / real_of_int NROWS_PER_THREAD\<rceil> \<and>
       ppso ! k = sum_list (take k pps) \<and>
       segment_end ppso npart (int k) = ppso ! k + pps ! k \<and>
       (\<forall>j. int j < pps ! k \<longrightarrow>
          pso ! (nat (ppso ! k) + j) = offs ! k + int j * NROWS_PER_THREAD \<and>
          segment_end pso numel (ppso ! k + int j) =
            min (offs ! k + (int j + 1) * NROWS_PER_THREAD) (segment_end offs numel (int k)) \<and>
          0 < segment_end pso numel (ppso ! k + int j) - pso ! (nat (ppso ! k) + j) \<and>
          segment_end pso numel (ppso ! k + int j) - pso ! (nat (ppso ! k) + j) \<le> NROWS_PER_THREAD) \<and>
       (\<forall>i. offs ! k \<le> i \<and> i < segment_end offs numel (int k) \<longrightarrow>
          (\<exists>!j. int j < pps ! k \<and> pso ! (nat (ppso ! k) + j) \<le> i \<and>
                i < segment_end pso numel (ppso ! k + int j))))"
proof -
  obtain so n where so: "offs = map int so" "numel = int n" and v: "valid_starts so n"
    using int_starts [OF assms(1-3)] by blast
  let ?m = "length so"
  from assms(4) have res:
    "pps = map (\<lambda>k. int (cnt so n k)) [0..<?m]"
    "ppso = map (\<lambda>k. int (pstart so n k)) [0..<?m]"
    "npart = int (pstart so n ?m)" "pso = pso_of so n"
    by (simp_all add: so partial_segments_stage_pso [OF v])
  have seg: "pps ! k = \<lceil>real_of_int (segment_end offs numel (int k) - offs ! k) / real_of_int NROWS_PER_THREAD\<rceil> \<and>
       ppso ! k = sum_list (take k pps) \<and>
       segment_end ppso npart (int k) = ppso ! k + pps ! k \<and>
       (\<forall>j. int j < pps ! k \<longrightarrow>
          pso ! (nat (ppso ! k) + j) = offs ! k + int j * NROWS_PER_THREAD \<and>
          segment_end pso numel (ppso ! k + int j) =
            min (offs ! k + (int j + 1) * NROWS_PER_THREAD) (segment_end offs numel (int k)) \<and>
          0 < segment_end pso numel (ppso ! k + int j) - pso ! (nat (ppso ! k) + j) \<and>
          segment_end pso numel (ppso ! k + int j) - pso ! (nat (ppso ! k) + j) \<le> NROWS_PER_THREAD) \<and>
       (\<forall>i. offs ! k \<le> i \<and> i < segment_end offs numel (int k) \<longrightarrow>
          (\<exists>!j. int j < pps ! k \<and> pso ! (nat (ppso ! k) + j) \<le> i \<and>
                i < segment_end pso numel (ppso ! k + int j)))"
    if k: "k < ?m" for k
  proof -
    have ppsk: "pps ! k = int (cnt so n k)" and ppsok: "ppso ! k = int (pstart so n k)"
      using k by (simp_all add: res del: upt_Suc)
    have offk: "offs ! k = int (so ! k)" using k by (simp add: so)
    have sek: "segment_end offs numel (int k) = int (nend so n k)"
      using k by (simp add: so segment_end_map_int)
    have gt: "so ! k < nend so n k" using v k by (rule valid_nend_gt)
    have "segment_end offs numel (int k) - offs ! k = int (seg_len so n k)"
      using gt by (simp add: sek offk seg_len_def)
    then have c1: "pps ! k = \<lceil>real_of_int (segment_end offs numel (int k) - offs ! k) / real_of_int NROWS_PER_THREAD\<rceil>"
      using CeilDiv_ceiling [of "int (seg_len so n k)" 10] CeilDiv_nat [of 10 "seg_len so n k"]
      by (simp add: ppsk cnt_def NROWS_PER_THREAD_def)
    have "sum_list (take k pps) = int (pstart so n k)"
      unfolding res(1) using k by (rule pps_take_sum)
    then have c2: "ppso ! k = sum_list (take k pps)"
      by (simp only: ppsok)
    have c3: "segment_end ppso npart (int k) = ppso ! k + pps ! k"
      using ppso_end [OF k, of n] by (simp only: res(1,2,3) [symmetric] ppsk ppsok)
    have c4: "pso ! (nat (ppso ! k) + j) = offs ! k + int j * NROWS_PER_THREAD \<and>
          segment_end pso numel (ppso ! k + int j) =
            min (offs ! k + (int j + 1) * NROWS_PER_THREAD) (segment_end offs numel (int k)) \<and>
          0 < segment_end pso numel (ppso ! k + int j) - pso ! (nat (ppso ! k) + j) \<and>
          segment_end pso numel (ppso ! k + int j) - pso ! (nat (ppso ! k) + j) \<le> NROWS_PER_THREAD"
      if "int j < pps ! k" for j
    proof -
      from that have j: "j < cnt so n k" by (simp add: ppsk)
      have a: "pso ! (nat (ppso ! k) + j) = int (so ! k + 10 * j)"
        using pso_of_nth [OF v k j] by (simp add: res(4) ppsok)
      have b: "segment_end pso numel (ppso ! k + int j) = int (pend so n k j)"
        using pso_of_end [OF v k j] by (simp add: res(4) so(2) ppsok)
      note pf = pend_facts [OF v k j]
      show ?thesis
        using pf by (simp add: a b offk sek NROWS_PER_THREAD_def min_def)
    qed
    have c5: "\<exists>!j. int j < pps ! k \<and> pso ! (nat (ppso ! k) + j) \<le> i \<and>
                i < segment_end pso numel (ppso ! k + int j)"
      if "offs ! k \<le> i \<and> i < segment_end offs numel (int k)" for i
    proof -
      from that have i: "so ! k \<le> nat i" "nat i < nend so n k" "0 \<le> i"
        by (simp_all add: offk sek) linarith+
      have eq: "(int j < pps ! k \<and> pso ! (nat (ppso ! k) + j) \<le> i \<and>
                i < segment_end pso numel (ppso ! k + int j)) \<longleftrightarrow>
            (j < cnt so n k \<and> so ! k + 10 * j \<le> nat i \<and> nat i < pend so n k j)" for j
      proof (cases "j < cnt so n k")
        case True
        have a: "pso ! (nat (ppso ! k) + j) = int (so ! k + 10 * j)"
          using pso_of_nth [OF v k True] by (simp add: res(4) ppsok)
        have b: "segment_end pso numel (ppso ! k + int j) = int (pend so n k j)"
          using pso_of_end [OF v k True] by (simp add: res(4) so(2) ppsok)
        show ?thesis using True i(3) unfolding a b ppsk by auto
      next
        case False
        then show ?thesis by (simp add: ppsk)
      qed
      show ?thesis
        using partial_cover [OF v k i(1,2)] by (simp only: eq)
    qed
    show ?thesis using c1 c2 c3 c4 c5 by blast
  qed
  have lo: "length offs = ?m"
    by (simp add: so)
  have lens: "length pps = ?m" "length ppso = ?m" "int (length pso) = npart"
    by (simp_all add: res)
  show ?thesis
    unfolding lo using seg lens by (intro conjI allI impI) blast+
qed

theorem partial_segment_splitting_witness:
  "partial_segments_stage [0, 25] (int (length [0, 25::int])) 37 = ([3, 2], [0, 3], 5, [0, 10, 20, 25, 35]) \<and>
   [3, 2] ! 1 = \<lceil>real_of_int (segment_end [0, 25] 37 (int 1) - [0, 25] ! 1) / real_of_int NROWS_PER_THREAD\<rceil> \<and>
   [0, 3] ! 1 = sum_list (take 1 [3, 2::int]) \<and>
   [0, 10, 20, 25, 35] ! (nat ([0, 3] ! 1) + 1) = [0, 25] ! 1 + int 1 * NROWS_PER_THREAD \<and>
   segment_end [0, 10, 20, 25, 35] 37 ([0, 3] ! 1 + int 1) - [0, 10, 20, 25, 35] ! (nat ([0, 3] ! 1) + 1) \<le> NROWS_PER_THREAD \<and>
   (\<exists>!j. int j < [3, 2] ! 1 \<and> [0, 10, 20, 25, 35] ! (nat ([0, 3] ! 1) + j) \<le> (36::int) \<and>
         36 < segment_end [0, 10, 20, 25, 35] 37 ([0, 3] ! 1 + int j))"
proof -
  have st: "partial_segments_stage [0, 25] (int (length [0, 25::int])) 37
      = ([3, 2], [0, 3], 5, [0, 10, 20, 25, 35])"
    by code_simp
  have h: "[0, 25] \<noteq> ([] :: int list)" "sorted_wrt (<) [0, 25::int]"
    "\<forall>x\<in>set [0, 25::int]. 0 \<le> x \<and> x < 37"
    by simp_all
  note t = partial_segment_splitting [OF h st]
  have one: "1 < length [0, 25::int]" by simp
  note k1 = t [THEN conjunct2, THEN conjunct2, THEN conjunct2, THEN spec, of 1, THEN mp, OF one]
  have j1: "int 1 < [3, 2] ! 1" by simp
  have i: "[0, 25] ! 1 \<le> (36::int) \<and> 36 < segment_end [0, 25] 37 (int 1)"
    by (simp add: segment_end_def)
  note a = k1 [THEN conjunct1]
  note b = k1 [THEN conjunct2, THEN conjunct1]
  note d = k1 [THEN conjunct2, THEN conjunct2, THEN conjunct2, THEN conjunct1, THEN spec, of 1,
      THEN mp, OF j1]
  note e = k1 [THEN conjunct2, THEN conjunct2, THEN conjunct2, THEN conjunct2, THEN spec, of 36,
      THEN mp, OF i]
  from st a b d e show ?thesis by blast
qed

section \<open>Verification: accumulation, final reduction and scatter\<close>

lemma warp_ge: "0 < wg \<Longrightarrow> s \<le> warp wg s"
proof -
  assume wg: "0 < wg"
  have "(s + wg - 1) div wg * wg + (s + wg - 1) mod wg = s + wg - 1" by (rule div_mult_mod_eq)
  moreover have "(s + wg - 1) mod wg < wg" using wg by simp
  ultimately show ?thesis unfolding warp_def by linarith
qed

lemma warp_ge_wg: "0 < wg \<Longrightarrow> 0 < s \<Longrightarrow> wg \<le> warp wg s"
proof -
  assume a: "0 < wg" "0 < s"
  then have "wg \<le> s + wg - 1" by simp
  then have "wg div wg \<le> (s + wg - 1) div wg" by (rule div_le_mono)
  then have "1 \<le> (s + wg - 1) div wg" using a by simp
  then have "1 * wg \<le> (s + wg - 1) div wg * wg" by (rule mult_le_mono1)
  then show ?thesis by (simp add: warp_def)
qed

lemma launch_geometry_nat:
  assumes "0 < wg" "0 < s"
  shows "\<exists>tot. launch_geometry (int wg) (int s) (int ns) = (int (warp wg s), tot) \<and>
           int (ns * warp wg s) \<le> tot"
proof -
  have sw: "CeilDiv (int s) (int wg) * int wg = int (warp wg s)"
    using assms by (simp add: CeilDiv_nat warp_def)
  have gs: "min (int (warp wg s)) (int wg) = int wg"
    using warp_ge_wg [OF assms] by simp
  have "int ns * int (warp wg s) \<le> CeilDiv (int ns * int (warp wg s)) (int wg) * int wg"
    using assms by (intro CeilDiv_mult_ge) simp_all
  then show ?thesis
    by (simp add: launch_geometry_def Let_def sw gs)
qed

lemma concat_product:
  "concat (map (\<lambda>x. concat (map (g x) ys)) xs) = concat (map (\<lambda>(x, y). g x y) (List.product xs ys))"
  by (induction xs) (simp_all add: comp_def)

lemma guarded_item_nat:
  assumes "0 < sw"
  shows "guarded_item (int sw) (int s) (int ns) body (int g) =
     (if g mod sw \<ge> s then [] else if g div sw \<ge> ns then [] else body (int (g div sw)) (int (g mod sw)))"
proof -
  have "int g sdiv int sw = int (g div sw)"
    by (simp add: sdiv_nonneg zdiv_int)
  moreover have "int g smod int sw = int (g mod sw)"
    by (simp add: smod_nonneg zmod_int)
  ultimately show ?thesis
    by (simp add: guarded_item_def)
qed

lemma guarded_row:
  assumes "0 < sw" "s \<le> sw" "k < ns"
  shows "concat (map (\<lambda>g. guarded_item (int sw) (int s) (int ns) body (int g)) [k * sw..<k * sw + sw])
       = concat (map (\<lambda>f. body (int k) (int f)) [0..<s])"
proof -
  have split: "[0..<sw] = [0..<s] @ [s..<sw]"
    using assms(2) by (metis le_add_diff_inverse upt_add_eq_append zero_le)
  have "[k * sw..<k * sw + sw] = map (\<lambda>f. k * sw + f) [0..<sw]"
    by (simp add: map_add_upt add.commute)
  then have "concat (map (\<lambda>g. guarded_item (int sw) (int s) (int ns) body (int g)) [k * sw..<k * sw + sw])
      = concat (map (\<lambda>f. guarded_item (int sw) (int s) (int ns) body (int (k * sw + f))) [0..<sw])"
    by (simp only: map_map comp_def)
  also have "\<dots> = concat (map (\<lambda>f. if f \<ge> s then [] else body (int k) (int f)) [0..<sw])"
  proof (intro arg_cong [where f = concat] map_cong refl)
    fix f
    assume "f \<in> set [0..<sw]"
    then have f: "f < sw" by simp
    then have "(k * sw + f) div sw = k" "(k * sw + f) mod sw = f" by simp_all
    then show "guarded_item (int sw) (int s) (int ns) body (int (k * sw + f))
        = (if f \<ge> s then [] else body (int k) (int f))"
      using assms(3) by (simp only: guarded_item_nat [OF assms(1)]) simp
  qed
  also have "\<dots> = concat (map (\<lambda>f. body (int k) (int f)) [0..<s])"
  proof -
    have a: "map (\<lambda>f. if f \<ge> s then [] else body (int k) (int f)) [0..<s]
        = map (\<lambda>f. body (int k) (int f)) [0..<s]"
      by (intro map_cong) simp_all
    have b: "concat (map (\<lambda>f. if f \<ge> s then [] else body (int k) (int f)) [s..<sw]) = []"
      by simp
    show ?thesis
      unfolding split by (simp only: map_append concat_append a b append_Nil2)
  qed
  finally show ?thesis .
qed

lemma guarded_rows:
  assumes "0 < sw" "s \<le> sw" "m \<le> ns"
  shows "concat (map (\<lambda>g. guarded_item (int sw) (int s) (int ns) body (int g)) [0..<m * sw])
       = concat (map (\<lambda>k. concat (map (\<lambda>f. body (int k) (int f)) [0..<s])) [0..<m])"
  using assms(3)
proof (induction m)
  case 0
  then show ?case by simp
next
  case (Suc m)
  let ?G = "\<lambda>g. guarded_item (int sw) (int s) (int ns) body (int g)"
  have "Suc m * sw = m * sw + sw" by simp
  moreover have "[0..<m * sw + sw] = [0..<m * sw] @ [m * sw..<m * sw + sw]"
    by (rule upt_add_eq_append) simp
  ultimately have "concat (map ?G [0..<Suc m * sw])
      = concat (map ?G [0..<m * sw]) @ concat (map ?G [m * sw..<m * sw + sw])"
    by (simp only: map_append concat_append)
  also have "concat (map ?G [0..<m * sw])
      = concat (map (\<lambda>k. concat (map (\<lambda>f. body (int k) (int f)) [0..<s])) [0..<m])"
    using Suc by simp
  also have "concat (map ?G [m * sw..<m * sw + sw]) = concat (map (\<lambda>f. body (int m) (int f)) [0..<s])"
    using Suc.prems by (intro guarded_row [OF assms(1,2)]) simp
  finally show ?case by simp
qed

lemma parallel_for_guarded:
  assumes "0 < sw" "s \<le> sw" "int (ns * sw) \<le> tot"
  shows "parallel_for tot (guarded_item (int sw) (int s) (int ns) body)
       = concat (map (\<lambda>(k, f). body (int k) (int f)) (List.product [0..<ns] [0..<s]))"
proof -
  have "guarded_item (int sw) (int s) (int ns) body gid = []" if "int (ns * sw) \<le> gid" for gid
  proof -
    have "0 \<le> int (ns * sw)" by simp
    with that have "0 \<le> gid" by linarith
    then obtain g where g: "gid = int g" by (metis nat_0_le)
    with that have "ns * sw \<le> g" by linarith
    then have "ns \<le> g div sw"
      using assms(1) by (simp add: less_eq_div_iff_mult_less_eq)
    then show ?thesis
      unfolding g by (simp add: guarded_item_nat [OF assms(1)])
  qed
  then have "parallel_for tot (guarded_item (int sw) (int s) (int ns) body)
      = concat (map (\<lambda>g. guarded_item (int sw) (int s) (int ns) body (int g)) [0..<ns * sw])"
    using assms(3) by (intro parallel_for_guard)
  then show ?thesis
    using guarded_rows [OF assms(1,2), of ns ns body] by (simp add: concat_product)
qed

lemma upto_map_int: "[int a..int b - 1] = map int [a..<b]"
proof (induction b)
  case 0
  then show ?case by simp
next
  case (Suc b)
  show ?case
  proof (cases "a \<le> b")
    case True
    then have "[int a..int (Suc b) - 1] = [int a..int b - 1] @ [int b]"
      using upto_rec2 [of "int a" "int b"] by simp
    with Suc True show ?thesis by simp
  next
    case False
    then show ?thesis by simp
  qed
qed

lemma foldl_upto_nat:
  "foldl step z [int a..int b - 1] = foldl (\<lambda>w i. step w (int i)) z [a..<b]"
  by (simp only: upto_map_int foldl_map)

lemma cell_address_inj:
  assumes "0 < s" "f < s" "f' < s" "int k * int s + int f = int k' * int s + int f'"
  shows "k = k' \<and> f = (f'::nat)"
proof -
  from assms(4) have "int (k * s + f) = int (k' * s + f')"
    by simp
  then have e: "k * s + f = k' * s + f'"
    by (simp only: of_nat_eq_iff)
  then have "(k * s + f) div s = (k' * s + f') div s" "(k * s + f) mod s = (k' * s + f') mod s"
    by simp_all
  then show ?thesis using assms(1-3) by simp
qed

lemma cell_stores_distinct:
  assumes "0 < s" "distinct ks"
  shows "distinct (map fst (map (\<lambda>(k, f). (int k * int s + int f, V k f)) (List.product ks [0..<s])))"
proof -
  have "inj_on (\<lambda>(k, f). int k * int s + int f) (set (List.product ks [0..<s]))"
  proof (rule inj_onI)
    fix x y
    assume x: "x \<in> set (List.product ks [0..<s])" and y: "y \<in> set (List.product ks [0..<s])"
      and e: "(case x of (k, f) \<Rightarrow> int k * int s + int f) = (case y of (k, f) \<Rightarrow> int k * int s + int f)"
    obtain k f k' f' where xy: "x = (k, f)" "y = (k', f')" by (cases x, cases y) blast
    with x y have "f < s" "f' < s" by simp_all
    moreover from e xy have "int k * int s + int f = int k' * int s + int f'" by simp
    ultimately have "k = k' \<and> f = f'" by (rule cell_address_inj [OF assms(1)])
    with xy show "x = y" by simp
  qed
  moreover have "distinct (List.product ks [0..<s])"
    using assms(2) by (simp add: distinct_product)
  ultimately show ?thesis
    by (simp add: distinct_map comp_def case_prod_unfold)
qed

lemma cell_scatter_nth:
  assumes "0 < s" "p < np" "f < s" "length buf = np * s"
  shows "scatter buf (map (\<lambda>(k, f). (int k * int s + int f, V k f)) (List.product [0..<np] [0..<s]))
           ! (p * s + f) = V p f"
proof -
  let ?st = "map (\<lambda>(k, f). (int k * int s + int f, V k f)) (List.product [0..<np] [0..<s])"
  have "distinct (map fst ?st)"
    using assms(1) by (intro cell_stores_distinct) simp_all
  moreover have "(int (p * s + f), V p f) \<in> set ?st"
  proof -
    have "(p, f) \<in> set (List.product [0..<np] [0..<s])" using assms(2,3) by simp
    then have "(\<lambda>(k, f). (int k * int s + int f, V k f)) (p, f) \<in> set ?st"
      unfolding set_map by (rule imageI)
    then show ?thesis by simp
  qed
  moreover have "p * s + f < length buf"
  proof -
    have "p * s + f < p * s + s" using assms(3) by simp
    also have "\<dots> = Suc p * s" by simp
    also have "\<dots> \<le> np * s" using assms(2) by (intro mult_le_mono1) simp
    finally show ?thesis using assms(4) by simp
  qed
  ultimately show ?thesis by (rule scatter_nth_distinct)
qed

lemma compute_grad_weight_bags_kfn_guarded:
  "compute_grad_weight_bags_kfn ar sw indices gradOutput offset2bag cn numel stride mode_mean
     bag_size psw po np
   = guarded_item sw stride np (\<lambda>id' f. [(id' * stride + f,
       foldl (grad_weight_bags_step ar indices gradOutput offset2bag cn stride mode_mean bag_size
                psw f)
         0 [po ! nat id'..(if id' = np - 1 then numel else po ! nat (id' + 1)) - 1])])"
  by (rule ext) (simp add: compute_grad_weight_bags_kfn_def guarded_item_def Let_def)

lemma compute_grad_weight_kfn_guarded:
  "compute_grad_weight_kfn ar sw indices grad_output cn numel stride po np
   = guarded_item sw stride np (\<lambda>id' f. [(id' * stride + f,
       foldl (grad_weight_step ar indices grad_output cn stride f)
         0 [po ! nat id'..(if id' = np - 1 then numel else po ! nat (id' + 1)) - 1])])"
  by (rule ext) (simp add: compute_grad_weight_kfn_def guarded_item_def Let_def)

lemma sum_and_scatter_kfn_guarded:
  "sum_and_scatter_kfn ar sw input stride offs ns gwps ppso npart pad
   = guarded_item sw stride ns (\<lambda>id' f.
       if input ! nat (offs ! nat id') \<noteq> pad then
         [(input ! nat (offs ! nat id') * stride + f,
           to_scalar ar
             (foldl (\<lambda>weight idx. acc_add ar weight (gwps ! nat (idx * stride + f))) 0
                [ppso ! nat id'..(if id' = ns - 1 then npart else ppso ! nat (id' + 1)) - 1]))]
       else [])"
  by (rule ext) (simp add: sum_and_scatter_kfn_def guarded_item_def Let_def)

lemma concat_singletons_prod:
  "concat (map (\<lambda>(k, f). [h k f]) xs) = map (\<lambda>(k, f). h k f) xs"
  by (induction xs) auto

lemma concat_guarded_prod:
  "concat (map (\<lambda>(k, f). if G k then [h k f] else []) xs)
     = map (\<lambda>(k, f). h k f) (filter (\<lambda>(k, f). G k) xs)"
  by (induction xs) auto

lemma compute_grad_weight_bags_cell:
  assumes "0 < wg" "0 < s" "p < length po" "f < s" "length buf = length po * s"
  shows "compute_grad_weight_bags ar (int wg) indices gradOutput o2b cn numel (int s) mm bs psw po
           (int (length po)) buf ! (p * s + f)
       = foldl (grad_weight_bags_step ar indices gradOutput o2b cn (int s) mm bs psw (int f))
           0 [po ! p..segment_end po numel (int p) - 1]"
proof -
  let ?V = "\<lambda>k f. foldl (grad_weight_bags_step ar indices gradOutput o2b cn (int s) mm bs psw (int f))
           0 [po ! k..segment_end po numel (int k) - 1]"
  obtain tot where g: "launch_geometry (int wg) (int s) (int (length po)) = (int (warp wg s), tot)"
    and tot: "int (length po * warp wg s) \<le> tot"
    using launch_geometry_nat [OF assms(1,2)] by blast
  have sw: "0 < warp wg s" "s \<le> warp wg s"
    using warp_ge [OF assms(1), of s] assms(2) by simp_all
  have "parallel_for tot (compute_grad_weight_bags_kfn ar (int (warp wg s)) indices gradOutput o2b cn
          numel (int s) mm bs psw po (int (length po)))
      = map (\<lambda>(k, f). (int k * int s + int f, ?V k f)) (List.product [0..<length po] [0..<s])"
    unfolding compute_grad_weight_bags_kfn_guarded
    by (simp only: parallel_for_guarded [OF sw tot])
       (simp add: concat_singletons_prod segment_end_def)
  then show ?thesis
    using cell_scatter_nth [OF assms(2,3,4,5), of ?V]
    by (simp add: compute_grad_weight_bags_def g)
qed

lemma compute_grad_weight_cell:
  assumes "0 < wg" "0 < s" "p < length po" "f < s" "length buf = length po * s"
  shows "compute_grad_weight ar (int wg) indices grad_output cn numel (int s) po (int (length po)) buf
           ! (p * s + f)
       = foldl (grad_weight_step ar indices grad_output cn (int s) (int f))
           0 [po ! p..segment_end po numel (int p) - 1]"
proof -
  let ?V = "\<lambda>k f. foldl (grad_weight_step ar indices grad_output cn (int s) (int f))
           0 [po ! k..segment_end po numel (int k) - 1]"
  obtain tot where g: "launch_geometry (int wg) (int s) (int (length po)) = (int (warp wg s), tot)"
    and tot: "int (length po * warp wg s) \<le> tot"
    using launch_geometry_nat [OF assms(1,2)] by blast
  have sw: "0 < warp wg s" "s \<le> warp wg s"
    using warp_ge [OF assms(1), of s] assms(2) by simp_all
  have "parallel_for tot (compute_grad_weight_kfn ar (int (warp wg s)) indices grad_output cn
          numel (int s) po (int (length po)))
      = map (\<lambda>(k, f). (int k * int s + int f, ?V k f)) (List.product [0..<length po] [0..<s])"
    unfolding compute_grad_weight_kfn_guarded
    by (simp only: parallel_for_guarded [OF sw tot])
       (simp add: concat_singletons_prod segment_end_def)
  then show ?thesis
    using cell_scatter_nth [OF assms(2,3,4,5), of ?V]
    by (simp add: compute_grad_weight_def g)
qed

lemma sum_and_scatter_stores_eq:
  assumes "0 < wg" "0 < s" "length ppso = ns"
  shows "sum_and_scatter_stores ar (int wg) input (int s) offs (int ns) gwps ppso npart pad
       = map (\<lambda>(k, f). (input ! nat (offs ! k) * int s + int f,
                         segment_weight ar gwps (int s) ppso npart k f))
           (filter (\<lambda>(k, f). input ! nat (offs ! k) \<noteq> pad) (List.product [0..<ns] [0..<s]))"
proof -
  obtain tot where g: "launch_geometry (int wg) (int s) (int ns) = (int (warp wg s), tot)"
    and tot: "int (ns * warp wg s) \<le> tot"
    using launch_geometry_nat [OF assms(1,2)] by blast
  have sw: "0 < warp wg s" "s \<le> warp wg s"
    using warp_ge [OF assms(1), of s] assms(2) by simp_all
  have "parallel_for tot (sum_and_scatter_kfn ar (int (warp wg s)) input (int s) offs (int ns) gwps
          ppso npart pad)
      = map (\<lambda>(k, f). (input ! nat (offs ! k) * int s + int f,
                         segment_weight ar gwps (int s) ppso npart k f))
           (filter (\<lambda>(k, f). input ! nat (offs ! k) \<noteq> pad) (List.product [0..<ns] [0..<s]))"
    unfolding sum_and_scatter_kfn_guarded
    by (simp only: parallel_for_guarded [OF sw tot])
       (simp add: concat_guarded_prod [symmetric] segment_weight_def segment_end_def assms(3)
          cong: if_cong)
  then show ?thesis
    by (simp add: sum_and_scatter_stores_def g)
qed

lemma int_address_inj:
  assumes "0 < s" "0 \<le> f" "f < s" "0 \<le> f'" "f' < s" "a * s + f = a' * s + (f'::int)"
  shows "a = a' \<and> f = f'"
proof -
  have "(a * s + f) div s = a" "(a' * s + f') div s = a'"
    using assms(1-5) by simp_all
  then have "a = a'" using assms(6) by simp
  with assms(6) show ?thesis by simp
qed

lemma count_distinct_fst:
  "distinct (map fst xs) \<Longrightarrow>
     length (filter (\<lambda>x. fst x = a) xs) = (if a \<in> fst ` set xs then 1 else 0)"
  by (induction xs) (auto simp: image_iff)

lemma scatter_stores_of_distinct:
  assumes "0 < s" "distinct (map (\<lambda>p. xs ! p) so)"
  shows "distinct (map fst (scatter_stores_of xs so s pad W))"
proof -
  let ?P = "filter (\<lambda>(k, f). xs ! (so ! k) \<noteq> pad) (List.product [0..<length so] [0..<s])"
  have "inj_on (\<lambda>(k, f). xs ! (so ! k) * int s + int f) (set ?P)"
  proof (rule inj_onI)
    fix x y
    assume x: "x \<in> set ?P" and y: "y \<in> set ?P"
      and e: "(case x of (k, f) \<Rightarrow> xs ! (so ! k) * int s + int f)
            = (case y of (k, f) \<Rightarrow> xs ! (so ! k) * int s + int f)"
    obtain k f k' f' where xy: "x = (k, f)" "y = (k', f')" by (cases x, cases y) blast
    with x y have b: "k < length so" "k' < length so" "f < s" "f' < s" by simp_all
    from e xy have "xs ! (so ! k) * int s + int f = xs ! (so ! k') * int s + int f'" by simp
    then have v: "xs ! (so ! k) = xs ! (so ! k') \<and> int f = int f'"
      using assms(1) b by (intro int_address_inj [of "int s"]) simp_all
    then have "map (\<lambda>p. xs ! p) so ! k = map (\<lambda>p. xs ! p) so ! k'"
      using b by simp
    then have "k = k'"
      using nth_eq_iff_index_eq [OF assms(2), of k k'] b by simp
    with v xy show "x = y" by simp
  qed
  moreover have "distinct ?P"
    by (simp add: distinct_product)
  ultimately show ?thesis
    by (simp add: scatter_stores_of_def distinct_map comp_def case_prod_unfold)
qed

lemma scatter_stores_of_mem:
  assumes "0 < s" "k < length so" "f < s"
  shows "xs ! (so ! k) * int s + int f \<in> fst ` set (scatter_stores_of xs so s pad W)
         \<longleftrightarrow> xs ! (so ! k) \<noteq> pad"
proof
  assume "xs ! (so ! k) * int s + int f \<in> fst ` set (scatter_stores_of xs so s pad W)"
  then obtain k' f' where m: "k' < length so" "f' < s" "xs ! (so ! k') \<noteq> pad"
    "xs ! (so ! k) * int s + int f = xs ! (so ! k') * int s + int f'"
    by (auto simp: scatter_stores_of_def)
  then have "xs ! (so ! k) = xs ! (so ! k') \<and> int f = int f'"
    using assms by (intro int_address_inj [of "int s"]) simp_all
  with m show "xs ! (so ! k) \<noteq> pad" by simp
next
  assume "xs ! (so ! k) \<noteq> pad"
  then have "(k, f) \<in> set (filter (\<lambda>(k, f). xs ! (so ! k) \<noteq> pad) (List.product [0..<length so] [0..<s]))"
    using assms by simp
  then have "(\<lambda>(k, f). (xs ! (so ! k) * int s + int f, W k f)) (k, f)
      \<in> set (scatter_stores_of xs so s pad W)"
    unfolding scatter_stores_of_def set_map by (rule imageI)
  then have "fst ((\<lambda>(k, f). (xs ! (so ! k) * int s + int f, W k f)) (k, f))
      \<in> fst ` set (scatter_stores_of xs so s pad W)"
    by (rule imageI)
  then show "xs ! (so ! k) * int s + int f \<in> fst ` set (scatter_stores_of xs so s pad W)"
    by simp
qed

lemma scatter_stores_of_pad:
  assumes "0 < s" "f < s"
  shows "pad * int s + int f \<notin> fst ` set (scatter_stores_of xs so s pad W)"
proof
  assume "pad * int s + int f \<in> fst ` set (scatter_stores_of xs so s pad W)"
  then obtain k' f' where m: "k' < length so" "f' < s" "xs ! (so ! k') \<noteq> pad"
    "pad * int s + int f = xs ! (so ! k') * int s + int f'"
    by (auto simp: scatter_stores_of_def)
  then have "pad = xs ! (so ! k') \<and> int f = int f'"
    using assms by (intro int_address_inj [of "int s"]) simp_all
  with m show False by simp
qed

lemma sum_and_scatter_stores_of:
  assumes "0 < wg" "0 < s" "length ppso = length so"
  shows "sum_and_scatter_stores ar (int wg) xs (int s) (map int so) (int (length so)) gwps ppso
           npart pad
       = scatter_stores_of xs so s pad (segment_weight ar gwps (int s) ppso npart)"
proof -
  have "filter (\<lambda>(k, f). xs ! nat (map int so ! k) \<noteq> pad) (List.product [0..<length so] [0..<s])
      = filter (\<lambda>(k, f). xs ! (so ! k) \<noteq> pad) (List.product [0..<length so] [0..<s])"
    by (intro filter_cong refl) auto
  moreover have "map (\<lambda>(k, f). (xs ! nat (map int so ! k) * int s + int f,
                                  segment_weight ar gwps (int s) ppso npart k f))
        (filter (\<lambda>(k, f). xs ! (so ! k) \<noteq> pad) (List.product [0..<length so] [0..<s]))
      = map (\<lambda>(k, f). (xs ! (so ! k) * int s + int f, segment_weight ar gwps (int s) ppso npart k f))
        (filter (\<lambda>(k, f). xs ! (so ! k) \<noteq> pad) (List.product [0..<length so] [0..<s]))"
    by (intro map_cong refl) auto
  ultimately show ?thesis
    by (simp only: sum_and_scatter_stores_eq [OF assms(1,2,3)] scatter_stores_of_def)
qed

lemma seg_starts_valid:
  assumes "xs \<noteq> []"
  shows "valid_starts (seg_starts xs) (length xs)"
proof -
  have "seg_starts xs \<noteq> []" using assms by (simp add: seg_starts_Cons)
  moreover have "\<forall>x\<in>set (seg_starts xs). x < length xs" using seg_starts_lt by blast
  ultimately show ?thesis using seg_starts_sorted [of xs] by (simp add: valid_starts_def)
qed




lemma gwps_ok_bags:
  assumes "valid_starts so n" "0 < wg" "0 < s" "length buf = pstart so n (length so) * s"
  shows "gwps_ok so n s
     (\<lambda>f w i. grad_weight_bags_step ar orig gradOutput o2b cn (int s) mm bs psw (int f) w (int i))
     (compute_grad_weight_bags ar (int wg) orig gradOutput o2b cn (int n) (int s) mm bs psw
        (pso_of so n) (int (pstart so n (length so))) buf)"
  unfolding gwps_ok_def
proof (intro allI impI)
  fix k j f
  assume k: "k < length so" and j: "j < cnt so n k" and f: "f < s"
  have p: "pstart so n k + j < length (pso_of so n)"
    using pstart_flat_less [OF k j] by simp
  have len: "length buf = length (pso_of so n) * s" using assms(4) by simp
  have "compute_grad_weight_bags ar (int wg) orig gradOutput o2b cn (int n) (int s) mm bs psw
        (pso_of so n) (int (length (pso_of so n))) buf ! ((pstart so n k + j) * s + f)
      = foldl (grad_weight_bags_step ar orig gradOutput o2b cn (int s) mm bs psw (int f))
           0 [pso_of so n ! (pstart so n k + j)..
              segment_end (pso_of so n) (int n) (int (pstart so n k + j)) - 1]"
    by (rule compute_grad_weight_bags_cell [OF assms(2,3) p f len])
  also have "\<dots> = chunk_acc
        (\<lambda>w i. grad_weight_bags_step ar orig gradOutput o2b cn (int s) mm bs psw (int f) w (int i))
        (so ! k + 10 * j) (pend so n k j)"
    by (simp only: pso_of_nth [OF assms(1) k j] pso_of_end [OF assms(1) k j] foldl_upto_nat
        chunk_acc_def)
  finally show "compute_grad_weight_bags ar (int wg) orig gradOutput o2b cn (int n) (int s) mm bs psw
        (pso_of so n) (int (pstart so n (length so))) buf ! ((pstart so n k + j) * s + f)
      = chunk_acc
        (\<lambda>w i. grad_weight_bags_step ar orig gradOutput o2b cn (int s) mm bs psw (int f) w (int i))
        (so ! k + 10 * j) (pend so n k j)"
    by simp
qed

lemma gwps_ok_plain:
  assumes "valid_starts so n" "0 < wg" "0 < s" "length buf = pstart so n (length so) * s"
  shows "gwps_ok so n s
     (\<lambda>f w i. grad_weight_step ar orig grad_output cn (int s) (int f) w (int i))
     (compute_grad_weight ar (int wg) orig grad_output cn (int n) (int s)
        (pso_of so n) (int (pstart so n (length so))) buf)"
  unfolding gwps_ok_def
proof (intro allI impI)
  fix k j f
  assume k: "k < length so" and j: "j < cnt so n k" and f: "f < s"
  have p: "pstart so n k + j < length (pso_of so n)"
    using pstart_flat_less [OF k j] by simp
  have len: "length buf = length (pso_of so n) * s" using assms(4) by simp
  have "compute_grad_weight ar (int wg) orig grad_output cn (int n) (int s)
        (pso_of so n) (int (length (pso_of so n))) buf ! ((pstart so n k + j) * s + f)
      = foldl (grad_weight_step ar orig grad_output cn (int s) (int f))
           0 [pso_of so n ! (pstart so n k + j)..
              segment_end (pso_of so n) (int n) (int (pstart so n k + j)) - 1]"
    by (rule compute_grad_weight_cell [OF assms(2,3) p f len])
  also have "\<dots> = chunk_acc
        (\<lambda>w i. grad_weight_step ar orig grad_output cn (int s) (int f) w (int i))
        (so ! k + 10 * j) (pend so n k j)"
    by (simp only: pso_of_nth [OF assms(1) k j] pso_of_end [OF assms(1) k j] foldl_upto_nat
        chunk_acc_def)
  finally show "compute_grad_weight ar (int wg) orig grad_output cn (int n) (int s)
        (pso_of so n) (int (pstart so n (length so))) buf ! ((pstart so n k + j) * s + f)
      = chunk_acc
        (\<lambda>w i. grad_weight_step ar orig grad_output cn (int s) (int f) w (int i))
        (so ! k + 10 * j) (pend so n k j)"
    by simp
qed

lemma foldl_cong_set:
  "(\<And>w x. x \<in> set xs \<Longrightarrow> g w x = h w x) \<Longrightarrow> foldl g z xs = foldl h z xs"
  by (induction xs arbitrary: z) simp_all

lemma segment_weight_acc:
  assumes "valid_starts so n" "gwps_ok so n s c gwps" "k < length so" "f < s"
  shows "segment_weight ar gwps (int s) (map (\<lambda>k. int (pstart so n k)) [0..<length so])
           (int (pstart so n (length so))) k f
       = to_scalar ar (segment_acc ar (c f) so n k)"
proof -
  let ?P = "pstart so n"
  have "foldl (\<lambda>weight idx. acc_add ar weight (gwps ! nat (idx * int s + int f))) 0
          [map (\<lambda>k. int (?P k)) [0..<length so] ! k..
           segment_end (map (\<lambda>k. int (?P k)) [0..<length so]) (int (?P (length so))) (int k) - 1]
      = foldl (\<lambda>weight idx. acc_add ar weight (gwps ! nat (idx * int s + int f))) 0
          [int (?P k)..int (?P k + cnt so n k) - 1]"
    using assms(3) ppso_end [OF assms(3), of n]
    by (simp del: upt_Suc)
  also have "\<dots> = foldl (\<lambda>weight p. acc_add ar weight (gwps ! nat (int p * int s + int f))) 0
          [?P k..<?P k + cnt so n k]"
    by (rule foldl_upto_nat)
  also have "\<dots> = foldl (\<lambda>weight p. acc_add ar weight (gwps ! (p * s + f))) 0
          [?P k..<?P k + cnt so n k]"
    by (intro foldl_cong_set) (simp add: nat_add_distrib nat_mult_distrib)
  also have "[?P k..<?P k + cnt so n k] = map (\<lambda>j. ?P k + j) [0..<cnt so n k]"
    by (simp only: map_add_upt add.commute [of "?P k"])
  also have "foldl (\<lambda>weight p. acc_add ar weight (gwps ! (p * s + f))) 0
          (map (\<lambda>j. ?P k + j) [0..<cnt so n k])
      = foldl (\<lambda>weight j. acc_add ar weight (gwps ! ((?P k + j) * s + f))) 0 [0..<cnt so n k]"
    by (simp only: foldl_map)
  also have "\<dots> = foldl (\<lambda>w j. acc_add ar w (chunk_acc (c f) (so ! k + 10 * j) (pend so n k j))) 0
          [0..<cnt so n k]"
    using assms(2,3,4) by (intro foldl_cong_set) (simp add: gwps_ok_def)
  finally show ?thesis
    by (simp only: segment_weight_def segment_acc_def)
qed

lemma find_segment:
  assumes "distinct (map (\<lambda>p. xs ! p) so)" "k < length so"
  shows "find (\<lambda>k'. xs ! (so ! k') = xs ! (so ! k)) [0..<length so] = Some k"
proof -
  obtain k' where f: "find (\<lambda>k'. xs ! (so ! k') = xs ! (so ! k)) [0..<length so] = Some k'"
    using assms(2) by (cases "find (\<lambda>k'. xs ! (so ! k') = xs ! (so ! k)) [0..<length so]")
      (auto simp: find_None_iff)
  then have "k' < length so" "xs ! (so ! k') = xs ! (so ! k)"
    by (auto simp: find_Some_iff)
  then have "map (\<lambda>p. xs ! p) so ! k' = map (\<lambda>p. xs ! p) so ! k"
    using assms(2) by simp
  then have "k' = k"
    using nth_eq_iff_index_eq [OF assms(1), of k' k] \<open>k' < length so\<close> assms(2) by simp
  with f show ?thesis by simp
qed

lemma final_scatter:
  assumes "sorted xs" "0 < s" "r < nw" "f < s"
  shows "scatter (replicate (nw * s) 0) (scatter_stores_of xs (seg_starts xs) s pad W) ! (r * s + f)
       = (if int r = pad then 0
          else case find (\<lambda>k. xs ! (seg_starts xs ! k) = int r) [0..<length (seg_starts xs)] of
                 None \<Rightarrow> 0 | Some k \<Rightarrow> W k f)"
proof -
  let ?so = "seg_starts xs"
  let ?st = "scatter_stores_of xs ?so s pad W"
  have addr: "int (r * s + f) = int r * int s + int f" by simp
  have inb: "r * s + f < nw * s"
  proof -
    have "r * s + f < r * s + s" using assms(4) by simp
    also have "\<dots> = Suc r * s" by simp
    also have "\<dots> \<le> nw * s" using assms(3) by (intro mult_le_mono1) simp
    finally show ?thesis .
  qed
  show ?thesis
  proof (cases "int r = pad")
    case True
    have "pad * int s + int f \<notin> fst ` set ?st"
      using assms(2,4) by (rule scatter_stores_of_pad)
    then have "\<forall>st\<in>set ?st. fst st \<noteq> int (r * s + f)"
      using True addr by (auto simp: image_iff)
    then have "scatter (replicate (nw * s) 0) ?st ! (r * s + f) = replicate (nw * s) (0::real) ! (r * s + f)"
      by (rule scatter_nth_other)
    then show ?thesis using True inb by simp
  next
    case False
    show ?thesis
    proof (cases "\<exists>k<length ?so. xs ! (?so ! k) = int r")
      case True
      then obtain k where k: "k < length ?so" "xs ! (?so ! k) = int r" by blast
      have "(k, f) \<in> set (filter (\<lambda>(k, f). xs ! (?so ! k) \<noteq> pad) (List.product [0..<length ?so] [0..<s]))"
        using k False assms(4) by simp
      then have "(\<lambda>(k, f). (xs ! (?so ! k) * int s + int f, W k f)) (k, f) \<in> set ?st"
        unfolding scatter_stores_of_def set_map by (rule imageI)
      then have mem: "(int (r * s + f), W k f) \<in> set ?st"
        using k(2) by simp
      have "distinct (map fst ?st)"
        using assms(2) seg_starts_values_distinct [OF assms(1)] by (rule scatter_stores_of_distinct)
      then have "scatter (replicate (nw * s) 0) ?st ! (r * s + f) = W k f"
        using mem inb by (intro scatter_nth_distinct) simp_all
      moreover have "find (\<lambda>k'. xs ! (?so ! k') = int r) [0..<length ?so] = Some k"
        using find_segment [OF seg_starts_values_distinct [OF assms(1)] k(1)] k(2) by simp
      ultimately show ?thesis using False by simp
    next
      case nok: False
      have "\<forall>st\<in>set ?st. fst st \<noteq> int (r * s + f)"
      proof
        fix st
        assume "st \<in> set ?st"
        then obtain k' f' where m: "k' < length ?so" "f' < s"
          "st = (xs ! (?so ! k') * int s + int f', W k' f')"
          by (auto simp: scatter_stores_of_def)
        show "fst st \<noteq> int (r * s + f)"
        proof
          assume "fst st = int (r * s + f)"
          with m have "xs ! (?so ! k') * int s + int f' = int r * int s + int f" by simp
          then have "xs ! (?so ! k') = int r \<and> int f' = int f"
            using assms(2,4) m(2) by (intro int_address_inj [of "int s"]) simp_all
          with nok m(1) show False by blast
        qed
      qed
      then have "scatter (replicate (nw * s) 0) ?st ! (r * s + f) = replicate (nw * s) (0::real) ! (r * s + f)"
        by (rule scatter_nth_other)
      moreover have "find (\<lambda>k. xs ! (?so ! k) = int r) [0..<length ?so] = None"
        using nok by (auto simp: find_None_iff)
      ultimately show ?thesis using False inb by simp
    qed
  qed
qed

lemma kernel_result:
  assumes "xs \<noteq> []" "sorted xs" "0 < wg" "0 < size1 grad"
    "scalar_type grad \<in> {Float, Double, BFloat16}"
  shows "\<exists>gw. embedding_bag_backward_dpcpp_kernel ar (int wg) grad orig xs cn nw pad sgf mm o2b bs psw
               = Inr gw \<and>
     scalar_type gw = scalar_type grad \<and> size0 gw = nw \<and> size1 gw = size1 grad \<and>
     length (data gw) = nw * size1 grad \<and>
     (\<forall>r<nw. \<forall>f<size1 grad. data gw ! (r * size1 grad + f) =
        (if int r = pad then 0
         else row_value (ar (scalar_type grad))
                (kernel_step (ar (scalar_type grad)) orig (data grad) o2b cn (size1 grad) mm bs psw f)
                xs (int r)))"
proof -
  let ?so = "seg_starts xs" and ?n = "length xs" and ?s = "size1 grad"
  let ?P = "pstart ?so ?n" and ?m = "length (seg_starts xs)"
  let ?a = "ar (scalar_type grad)"
  let ?c = "kernel_step ?a orig (data grad) o2b cn ?s mm bs psw"
  have v: "valid_starts ?so ?n" using assms(1) by (rule seg_starts_valid)
  define gwps where "gwps =
     (case o2b of
        Some ob \<Rightarrow> compute_grad_weight_bags ?a (int wg) orig (data grad) ob cn (int ?n) (int ?s) mm bs
                    psw (pso_of ?so ?n) (int (?P ?m)) (at_empty (nat (int (?P ?m)) * nat (int ?s)))
      | None \<Rightarrow> compute_grad_weight ?a (int wg) orig (data grad) cn (int ?n) (int ?s)
                    (pso_of ?so ?n) (int (?P ?m)) (at_empty (nat (int (?P ?m)) * nat (int ?s))))"
  have ok: "gwps_ok ?so ?n ?s ?c gwps"
  proof (cases o2b)
    case None
    then show ?thesis
      using gwps_ok_plain [OF v assms(3,4), of "at_empty (nat (int (?P ?m)) * nat (int ?s))"
          ?a orig "data grad" cn]
      by (simp add: gwps_def kernel_step_def [abs_def] at_empty_def)
  next
    case (Some ob)
    then show ?thesis
      using gwps_ok_bags [OF v assms(3,4), of "at_empty (nat (int (?P ?m)) * nat (int ?s))"
          ?a orig "data grad" ob cn mm bs psw]
      by (simp add: gwps_def kernel_step_def [abs_def] at_empty_def)
  qed
  define W where "W = segment_weight ?a gwps (int ?s) (map (\<lambda>k. int (?P k)) [0..<?m]) (int (?P ?m))"
  have W: "W k f = to_scalar ?a (segment_acc ?a (?c f) ?so ?n k)" if "k < ?m" "f < ?s" for k f
    unfolding W_def using v ok that by (rule segment_weight_acc)
  have st: "sum_and_scatter_stores ?a (int wg) xs (int ?s) (map int ?so) (int ?m) gwps
        (map (\<lambda>k. int (?P k)) [0..<?m]) (int (?P ?m)) pad
      = scatter_stores_of xs ?so ?s pad W"
    unfolding W_def by (rule sum_and_scatter_stores_of [OF assms(3,4)]) simp
  let ?gw = "(at_zeros nw ?s (scalar_type grad))\<lparr>data :=
      scatter (replicate (nw * ?s) 0) (scatter_stores_of xs ?so ?s pad W)\<rparr>"
  have "embedding_bag_backward_dpcpp_kernel ar (int wg) grad orig xs cn nw pad sgf mm o2b bs psw
      = Inr ?gw"
    using assms(5)
    by (simp add: embedding_bag_backward_dpcpp_kernel_def segment_offsets_stage_eq [OF assms(1)]
        partial_segments_stage_pso [OF v] sum_and_scatter_def st [unfolded gwps_def] at_zeros_def
        Let_def del: upt_Suc split: option.split)
  moreover have "data ?gw ! (r * ?s + f) =
        (if int r = pad then 0 else row_value ?a (?c f) xs (int r))"
    if "r < nw" "f < ?s" for r f
  proof -
    have "find (\<lambda>k. xs ! (?so ! k) = int r) [0..<?m] = Some k \<Longrightarrow> k < ?m" for k
      by (auto simp: find_Some_iff)
    then show ?thesis
      using final_scatter [OF assms(2,4) that, of pad W] W that(2)
      by (auto simp: row_value_def split: option.splits)
  qed
  ultimately show ?thesis
    by (intro exI [of _ ?gw]) (simp add: at_zeros_def)
qed

lemma stage_Inr:
  assumes "segment_offsets_stage xs = Inr offs"
  shows "xs \<noteq> [] \<and> offs = map int (seg_starts xs)"
proof -
  have "xs \<noteq> []" using assms by (auto simp: segment_offsets_stage_def)
  then show ?thesis using assms segment_offsets_stage_eq [of xs] by simp
qed

text \<open>C4. Take the segment offsets of a sorted stream and any partial sums. For every
  segment and feature column the final kernel issues no store to the row of the segment
  when its index value is \<open>padding_idx\<close>, and exactly one store otherwise; no store at all
  goes to the row \<open>padding_idx\<close>, so \<^verbatim>\<open>sum_and_scatter\<close> leaves that row as it found it, and
  in the result of the whole segmented backward, where it starts from zeros, the row is
  zero whatever the gradient is.\<close>

theorem padding_row_untouched:
  assumes "segment_offsets_stage sorted_indices = Inr offs" "sorted sorted_indices"
    "0 < work_group_size" "0 < stride" "length ppso = length offs"
  shows "(\<forall>k<length offs. \<forall>f. 0 \<le> f \<and> f < stride \<longrightarrow>
            length (filter (\<lambda>st. fst st = sorted_indices ! nat (offs ! k) * stride + f)
              (sum_and_scatter_stores ar work_group_size sorted_indices stride offs
                 (int (length offs)) gwps ppso npart padding_idx))
            = (if sorted_indices ! nat (offs ! k) = padding_idx then 0 else 1)) \<and>
         (\<forall>f. 0 \<le> f \<and> f < stride \<longrightarrow>
            padding_idx * stride + f \<notin> fst ` set
              (sum_and_scatter_stores ar work_group_size sorted_indices stride offs
                 (int (length offs)) gwps ppso npart padding_idx)) \<and>
         (\<forall>f. 0 \<le> padding_idx \<and> 0 \<le> f \<and> f < stride \<longrightarrow>
            sum_and_scatter ar work_group_size sorted_indices grad_weight stride offs
              (int (length offs)) gwps ppso npart padding_idx ! nat (padding_idx * stride + f)
            = grad_weight ! nat (padding_idx * stride + f)) \<and>
         (scalar_type grad \<in> {Float, Double, BFloat16} \<and> int (size1 grad) = stride \<longrightarrow>
            (\<exists>t. embedding_bag_backward_dpcpp_kernel fp work_group_size grad orig_indices
                   sorted_indices cn num_weights padding_idx sgf mode_mean o2b bag_size psw = Inr t \<and>
                 (\<forall>f<size1 grad. 0 \<le> padding_idx \<and> nat padding_idx < num_weights \<longrightarrow>
                    data t ! (nat padding_idx * size1 grad + f) = 0)))"
proof -
  let ?xs = sorted_indices
  let ?so = "seg_starts ?xs"
  obtain wg s where ws: "work_group_size = int wg" "stride = int s" "0 < wg" "0 < s"
    using assms(3,4) by (metis nat_0_le less_imp_le zero_less_nat_eq)
  have ne: "?xs \<noteq> []" and offs: "offs = map int ?so"
    using stage_Inr [OF assms(1)] by simp_all
  have lp: "length ppso = length ?so" using assms(5) offs by simp
  let ?W = "segment_weight ar gwps (int s) ppso npart"
  let ?st = "scatter_stores_of ?xs ?so s padding_idx ?W"
  have st: "sum_and_scatter_stores ar work_group_size ?xs stride offs (int (length offs)) gwps ppso
        npart padding_idx = ?st"
    unfolding ws offs length_map by (rule sum_and_scatter_stores_of [OF ws(3,4) lp])
  have d: "distinct (map fst ?st)"
    using ws(4) seg_starts_values_distinct [OF assms(2)] by (rule scatter_stores_of_distinct)
  have c1: "length (filter (\<lambda>st. fst st = ?xs ! nat (offs ! k) * stride + f) ?st)
            = (if ?xs ! nat (offs ! k) = padding_idx then 0 else 1)"
    if "k < length offs" "0 \<le> f \<and> f < stride" for k f
  proof -
    from that obtain f' where f': "f = int f'" "f' < s"
      using ws(2) by (metis nat_0_le nat_less_iff)
    have k: "k < length ?so" using that(1) offs by simp
    then have t: "?xs ! nat (offs ! k) = ?xs ! (?so ! k)" by (simp add: offs)
    show ?thesis
      unfolding t ws(2) f'(1)
      using scatter_stores_of_mem [OF ws(4) k f'(2), of ?xs padding_idx ?W]
      by (simp add: count_distinct_fst [OF d])
  qed
  have c2: "padding_idx * stride + f \<notin> fst ` set ?st" if "0 \<le> f \<and> f < stride" for f
  proof -
    from that obtain f' where f': "f = int f'" "f' < s"
      using ws(2) by (metis nat_0_le nat_less_iff)
    show ?thesis
      unfolding ws(2) f'(1) using ws(4) f'(2) by (rule scatter_stores_of_pad)
  qed
  have c3: "sum_and_scatter ar work_group_size ?xs grad_weight stride offs (int (length offs))
              gwps ppso npart padding_idx ! nat (padding_idx * stride + f)
            = grad_weight ! nat (padding_idx * stride + f)"
    if "0 \<le> padding_idx \<and> 0 \<le> f \<and> f < stride" for f
  proof -
    have "0 \<le> padding_idx * stride + f" using that assms(4) by simp
    then have "\<forall>x\<in>set ?st. fst x \<noteq> int (nat (padding_idx * stride + f))"
      using c2 [of f] that by (auto simp: image_iff)
    then show ?thesis
      unfolding sum_and_scatter_def st by (rule scatter_nth_other)
  qed
  have c4: "\<exists>t. embedding_bag_backward_dpcpp_kernel fp work_group_size grad orig_indices ?xs
                   cn num_weights padding_idx sgf mode_mean o2b bag_size psw = Inr t \<and>
                 (\<forall>f<size1 grad. 0 \<le> padding_idx \<and> nat padding_idx < num_weights \<longrightarrow>
                    data t ! (nat padding_idx * size1 grad + f) = 0)"
    if "scalar_type grad \<in> {Float, Double, BFloat16} \<and> int (size1 grad) = stride"
  proof -
    from that ws have s: "0 < size1 grad" and ty: "scalar_type grad \<in> {Float, Double, BFloat16}"
      by auto
    obtain t where t: "embedding_bag_backward_dpcpp_kernel fp (int wg) grad orig_indices ?xs cn
          num_weights padding_idx sgf mode_mean o2b bag_size psw = Inr t"
      and cell: "\<forall>r<num_weights. \<forall>f<size1 grad. data t ! (r * size1 grad + f) =
        (if int r = padding_idx then 0
         else row_value (fp (scalar_type grad))
                (kernel_step (fp (scalar_type grad)) orig_indices (data grad) o2b cn (size1 grad)
                   mode_mean bag_size psw f)
                ?xs (int r))"
      using kernel_result [OF ne assms(2) ws(3) s ty] by blast
    have "data t ! (nat padding_idx * size1 grad + f) = 0"
      if "f < size1 grad" "0 \<le> padding_idx \<and> nat padding_idx < num_weights" for f
      using cell that by simp
    with t show ?thesis unfolding ws(1) by blast
  qed
  show ?thesis
    unfolding st using c1 c2 c3 c4 unfolding st by (intro conjI allI impI) blast+
qed

theorem padding_row_untouched_witness:
  "segment_offsets_stage [1, 1, 3] = Inr [0, 2] \<and> sorted [1, 1, 3::int] \<and>
   length (filter (\<lambda>st. fst st = [1, 1, 3] ! nat ([0, 2] ! 0) * 2 + 1)
     (sum_and_scatter_stores (ieee_arith Float) 2 [1, 1, 3] 2 [0, 2] (int (length [0, 2::int])) [5, 6, 7, 8] [0, 1] 2 1))
     = (if [1, 1, 3] ! nat ([0, 2] ! 0) = (1::int) then 0 else 1) \<and>
   length (filter (\<lambda>st. fst st = [1, 1, 3] ! nat ([0, 2] ! 1) * 2 + 1)
     (sum_and_scatter_stores (ieee_arith Float) 2 [1, 1, 3] 2 [0, 2] (int (length [0, 2::int])) [5, 6, 7, 8] [0, 1] 2 1))
     = (if [1, 1, 3] ! nat ([0, 2] ! 1) = (1::int) then 0 else 1) \<and>
   sum_and_scatter (ieee_arith Float) 2 [1, 1, 3] [0, 0, 0, 0, 0, 0, 0, 0] 2 [0, 2] (int (length [0, 2::int]))
     [5, 6, 7, 8] [0, 1] 2 1 ! nat (1 * 2 + 1) = [0, 0, 0, 0, 0, 0, 0, 0] ! nat (1 * 2 + 1) \<and>
   sum_and_scatter (ieee_arith Float) 2 [1, 1, 3] [0, 0, 0, 0, 0, 0, 0, 0] 2 [0, 2] (int (length [0, 2::int]))
     [5, 6, 7, 8] [0, 1] 2 1 = [0, 0, 0, 0, 0, 0, 7, 8]"
proof -
  have st: "segment_offsets_stage [1, 1, 3] = Inr [0, 2]"
    by code_simp
  have h: "sorted [1, 1, 3::int]" "(0::int) < 2" "length [0, 1::int] = length [0, 2::int]"
    by simp_all
  note t = padding_row_untouched [OF st h(1) h(2) h(2) h(3), of "ieee_arith Float" "[5, 6, 7, 8]" 2 1
      "[0, 0, 0, 0, 0, 0, 0, 0]"]
  have f: "(0::int) \<le> 1 \<and> (1::int) < 2" by simp
  have k0: "0 < length [0, 2::int]" and k1: "1 < length [0, 2::int]" by simp_all
  note a = t [THEN conjunct1, THEN spec, of 0, THEN mp, OF k0, THEN spec, of 1, THEN mp, OF f]
  note b = t [THEN conjunct1, THEN spec, of 1, THEN mp, OF k1, THEN spec, of 1, THEN mp, OF f]
  have p: "(0::int) \<le> 1 \<and> (0::int) \<le> 1 \<and> (1::int) < 2" by simp
  note c = t [THEN conjunct2, THEN conjunct2, THEN conjunct1, THEN spec, of 1, THEN mp, OF p]
  have e: "sum_and_scatter (ieee_arith Float) 2 [1, 1, 3] [0, 0, 0, 0, 0, 0, 0, 0] 2 [0, 2] (int (length [0, 2::int]))
     [5, 6, 7, 8] [0, 1] 2 1 = [0, 0, 0, 0, 0, 0, 7, 8]"
    by code_simp
  from st h(1) a b c e show ?thesis by blast
qed

section \<open>Verification: the dense sum/mean backward\<close>












lemma contiguous_fields:
  "contiguous t = (copy, g) \<Longrightarrow>
     scalar_type g = scalar_type t \<and> size0 g = size0 t \<and> size1 g = size1 t \<and>
     copy = (if is_contiguous t then [] else [Copy_kernel])"
  by (auto simp: contiguous_def tensor.truncate_def split: if_splits)



text \<open>With per-sample weights, \<^verbatim>\<open>compute_grad_weight_bags\<close> reads the weight at the sorted
  position \<^verbatim>\<open>idx\<close>: for the lookups \<open>[1, 0]\<close> with weights \<open>[10, 1]\<close> row 0 gets the weight 10 of
  lookup 0, whose index is 1.\<close>

lemma per_sample_weight_at_sorted_position:
  "snd (embedding_bag_dense_backward_dpcpp ieee_arith (sort_key fst) 4
       \<lparr>scalar_type = Float, size0 = 2, size1 = 1, data = [1, 1], stride0 = 1, stride1 = 1\<rparr>
       [1, 0] [0, 1] (Some [0, 1]) [1, 1] [] 2 False MODE_SUM (Some ([10, 1], 1)))
     = Inr \<lparr>scalar_type = Float, size0 = 2, size1 = 1, data = [10, 1]\<rparr>"
  by code_simp




section \<open>Verification: the padding sentinel\<close>






section \<open>Verification: max-mode pooling\<close>





lemma max_loop_empty:
  "e < b \<Longrightarrow> foldl (updateOutput_step ar input weight s0 s1 MODE_MAX psw fd b) acc0 [b..e] = acc0"
  by simp


subsection \<open>The (chunk, local id) grid\<close>






lemma scatter_add_length [simp]: "length (scatter_add ar buf adds) = length buf"
  unfolding scatter_add_def by (induction adds arbitrary: buf) (simp_all add: atomicAdd_def)














end
